theory Spec2Isabelle
  imports Complex_Main "HOL-Library.Multiset" "HOL-Library.Log_Nat"
begin

section \<open>Data model of the Figma plugin\<close>

text \<open>
  A scene node as the plugin reads it: \<open>id\<close>, \<open>name\<close>, \<open>type\<close>, \<open>visible\<close>, \<open>children\<close>
  and \<open>characters\<close>. \<open>visible\<close> is \<open>None\<close> where the node has no such property (the code
  tests \<open>node.visible === false\<close>, so only an explicit \<open>false\<close> hides a node). A node without
  a \<open>children\<close> property has the empty list: \<open>'children' in node\<close> followed by a loop over
  the children does the same in both cases.
\<close>

datatype node =
  Node (nid: string) (nname: string) (ntype: string) (visible: "bool option")
       (children: "node list") (characters: string)

text \<open>
  The serialisable description of a text node (\<open>safeTextNode\<close>). Font and geometry fields
  are floating point or opaque objects and are left out.
\<close>

record text_info =
  ti_id :: string
  ti_name :: string
  ti_type :: string
  ti_characters :: string
  ti_path :: string
  ti_depth :: nat

text \<open>An entry of \<open>nodesToProcess\<close>: \<open>{node, parentPath, depth}\<close>.\<close>

record node_info =
  ni_node :: node
  ni_parentPath :: "string list"
  ni_depth :: nat

text \<open>The two values that have no properties: reading a property of either raises a
  \<open>TypeError\<close>.\<close>

datatype nullish = Null | Undefined

text \<open>
  One element of the \<open>text\<close> array of \<open>set_multiple_text_contents\<close>: \<open>null\<close> or
  \<open>undefined\<close>, or an object, of which the code reads \<open>nodeId\<close> and \<open>text\<close>; a field
  that is \<open>undefined\<close> is \<open>None\<close>. An element that is neither (a number, say) has
  neither field and behaves as the object without fields.
\<close>

record replacement =
  r_nodeId :: "string option"
  r_text :: "string option"

datatype entry = NullEntry nullish | Entry replacement

text \<open>
  A thrown value as a \<open>catch\<close> clause sees it: \<open>null\<close> or \<open>undefined\<close>, or a value with
  its \<open>message\<close> property (\<open>None\<close> when it has none, as for a thrown string).
\<close>

datatype thrown = ThrownNullish nullish | ThrownValue "string option"

text \<open>A per-item outcome: \<open>{success: true, nodeId, originalText, translatedText}\<close> or
  \<open>{success: false, nodeId, error}\<close>.\<close>

datatype item_result =
    ItemOk string string string
  | ItemFail string string

fun success :: "item_result \<Rightarrow> bool" where
  "success (ItemOk n orig new) = True"
| "success (ItemFail n e) = False"

fun result_nodeId :: "item_result \<Rightarrow> string" where
  "result_nodeId (ItemOk n orig new) = n"
| "result_nodeId (ItemFail n e) = n"

datatype status = Started | InProgress | Completed | Error

text \<open>The payload objects passed to \<open>sendProgressUpdate\<close>, one constructor for each shape
  that occurs in the source.\<close>

datatype payload =
    PError string
  | PTextNodes "text_info list"
  | PChunkSize nat
  | PScanPlan nat int nat
  | PScanChunkStart nat int nat
  | PScanChunkDone nat int nat nat "text_info list"
  | PScanDone "text_info list" nat nat
  | PTotal nat
  | PSetPlan nat nat nat
  | PSetChunkStart nat nat nat nat
  | PSetChunkDone nat nat nat nat "item_result list"
  | PSetDone nat nat nat nat "item_result list"

fun payload_currentChunk :: "payload \<Rightarrow> nat option" where
  "payload_currentChunk (PScanChunkStart c t f) = Some c"
| "payload_currentChunk (PScanChunkDone c t p f r) = Some c"
| "payload_currentChunk (PSetChunkStart c t s f) = Some c"
| "payload_currentChunk (PSetChunkDone c t s f r) = Some c"
| "payload_currentChunk other = None"

fun payload_totalChunks :: "payload \<Rightarrow> int option" where
  "payload_totalChunks (PScanPlan n t c) = Some t"
| "payload_totalChunks (PScanChunkStart c t f) = Some t"
| "payload_totalChunks (PScanChunkDone c t p f r) = Some t"
| "payload_totalChunks (PSetChunkStart c t s f) = Some (int t)"
| "payload_totalChunks (PSetChunkDone c t s f r) = Some (int t)"
| "payload_totalChunks other = None"

fun payload_chunkSize :: "payload \<Rightarrow> nat option" where
  "payload_chunkSize (PChunkSize c) = Some c"
| "payload_chunkSize (PScanPlan n t c) = Some c"
| "payload_chunkSize (PSetPlan n t c) = Some c"
| "payload_chunkSize other = None"

text \<open>
  The \<open>command_progress\<close> message. The \<open>message\<close> text and the \<open>timestamp\<close> are not
  modelled: they are log text and wall-clock time.
\<close>

record progress_update =
  commandId :: string
  commandType :: string
  status :: status
  progress :: int
  totalItems :: nat
  processedItems :: nat
  currentChunk :: "nat option"
  totalChunks :: "int option"
  chunkSize :: "nat option"
  payload :: "payload option"

text \<open>Results of the two chunked commands.\<close>

datatype scan_result =
    ScanPlain bool nat "text_info list" string
  | ScanChunked bool nat nat nat "text_info list" string

record set_result =
  sr_success :: bool
  sr_nodeId :: string
  replacementsApplied :: nat
  replacementsFailed :: nat
  totalReplacements :: nat
  results :: "item_result list"
  completedInChunks :: nat
  sr_commandId :: string

datatype command_result =
    ScanResult scan_result
  | SetResult set_result
  | LeafResult string

text \<open>Messages posted to the UI with \<open>figma.ui.postMessage\<close>.\<close>

datatype ui_message =
    CommandProgress progress_update
  | CommandResult string command_result
  | CommandError string string

text \<open>
  What a handler does besides computing its result, in program order: a message posted
  to the UI, an awaited \<open>delay(ms)\<close>, and the calls of the message handler's other cases.
\<close>

datatype effect =
    PostMessage ui_message
  | Delay nat
  | Notify string
  | ClosePlugin
  | StoreSettings nat

text \<open>The parameter object of a command; an absent property is \<open>None\<close>.\<close>

record params =
  p_nodeId :: "string option"
  p_nodeIds :: "string list option"
  p_text :: "entry list option"
  p_useChunking :: "bool option"
  p_chunkSize :: "nat option"
  p_commandId :: "string option"

text \<open>
  The host the plugin runs in. \<open>getNodeByIdAsync\<close> is the document lookup as it is when
  the command starts (\<open>None\<close> is \<open>null\<close>); \<open>readThrows\<close> says that reading the text
  properties of a node raises, \<open>copyFillsThrows\<close> that
  \<open>JSON.parse(JSON.stringify(node.fills))\<close> raises, \<open>fillsFalsy\<close> that this copy is a falsy
  value (\<open>fills\<close> is \<open>null\<close>), \<open>assignFillsThrows\<close> that assigning the highlight to
  \<open>node.fills\<close> raises, \<open>setCharactersError\<close> gives the value thrown by
  \<open>loadFontAsync\<close>/\<open>setCharacters\<close> inside \<open>setTextContent\<close> if there is one,
  \<open>assignCharactersThrows\<close> says that the assignment \<open>node.characters = characters\<close>
  raises (\<open>setCharacters\<close> then logs a warning and the text stays as it was);
  \<open>generateCommandId\<close> is the random identifier; \<open>leafHandler\<close> stands for the command
  handlers that are not chunked operations (\<open>set_text_content\<close> as a command of its own
  is one of them), with the value they resolve to or throw.
\<close>

datatype 'a settle = Resolved 'a | Rejected thrown | NeverSettles

record figma_env =
  getNodeByIdAsync :: "string \<Rightarrow> node option"
  readThrows :: "string \<Rightarrow> bool"
  copyFillsThrows :: "string \<Rightarrow> bool"
  fillsFalsy :: "string \<Rightarrow> bool"
  assignFillsThrows :: "string \<Rightarrow> bool"
  setCharactersError :: "string \<Rightarrow> thrown option"
  assignCharactersThrows :: "string \<Rightarrow> bool"
  generateCommandId :: string
  leafHandler :: "string \<Rightarrow> params option \<Rightarrow> string settle"

text \<open>The highlight of a scanned text node copies the fills and assigns the highlight
  inside one \<open>try\<close>: it fails when either step raises.\<close>

definition highlightThrows :: "figma_env \<Rightarrow> string \<Rightarrow> bool" where
  "highlightThrows env i \<longleftrightarrow> copyFillsThrows env i \<or> assignFillsThrows env i"

section \<open>JavaScript helpers\<close>

text \<open>\<open>!x\<close> for a string that may be undefined: undefined and the empty string are falsy.\<close>

fun falsy :: "string option \<Rightarrow> bool" where
  "falsy None = True"
| "falsy (Some s) = (s = [])"

text \<open>\<open>x || d\<close> on such a string.\<close>

fun or_else :: "string option \<Rightarrow> string \<Rightarrow> string" where
  "or_else None d = d"
| "or_else (Some s) d = (if s = [] then d else s)"

text \<open>Template interpolation of a string that may be undefined.\<close>

fun interpolate :: "string option \<Rightarrow> string" where
  "interpolate None = ''undefined''"
| "interpolate (Some s) = s"

text \<open>\<open>xs.slice(i, j)\<close> for indices \<open>0 \<le> i\<close>, \<open>0 \<le> j\<close>.\<close>

definition slice :: "'a list \<Rightarrow> nat \<Rightarrow> nat \<Rightarrow> 'a list" where
  "slice xs i j = take (j - i) (drop i xs)"

text \<open>\<open>parts.join(' > ')\<close>.\<close>

fun joinPath :: "string list \<Rightarrow> string" where
  "joinPath [] = []"
| "joinPath [p] = p"
| "joinPath (p # q # ps) = p @ '' > '' @ joinPath (q # ps)"

text \<open>The message of the \<open>TypeError\<close> raised by reading a property of \<open>null\<close> or
  \<open>undefined\<close>, in the wording of V8 (other engines word it differently).\<close>

definition typeError :: "nullish \<Rightarrow> string \<Rightarrow> string" where
  "typeError v property =
     ''Cannot read properties of '' @ (case v of Null \<Rightarrow> ''null'' | Undefined \<Rightarrow> ''undefined'')
     @ '' (reading '' @ [CHR 0x27] @ property @ [CHR 0x27] @ '')''"

text \<open>
  \<open>Math.ceil\<close> and \<open>Math.round\<close> (halves go up); both are exact on the number they are
  given. Where JavaScript divides by zero (\<open>Infinity\<close>, \<open>NaN\<close>) the HOL quotient is 0;
  this only happens for chunk size 0, which every statement about chunk counts below
  excludes. The number of chunks of a scan, \<open>Math.ceil(totalNodes / chunkSize)\<close>, is
  taken on the exact quotient: rounding the quotient to a double first gives the same
  ceiling for every count below \<open>2^53\<close> (\<open>Math_ceil_double\<close> below).
\<close>

definition Math_ceil :: "rat \<Rightarrow> int" where
  "Math_ceil x = \<lceil>x\<rceil>"

definition Math_round :: "rat \<Rightarrow> int" where
  "Math_round x = \<lfloor>x + 1 / 2\<rfloor>"

text \<open>
  JavaScript numbers are IEEE 754 doubles: the result of \<open>/\<close>, \<open>*\<close> and \<open>+\<close> is the exact
  result rounded to the nearest number with a 53-bit significand, a tie going to the even
  significand. \<open>rne\<close> rounds to the nearest integer in that way, \<open>expo x\<close> is the exponent
  \<open>e\<close> with \<open>2^e \<le> |x| < 2^(e+1)\<close>, and \<open>fl\<close> is the rounding. The exponent range is not
  modelled (no overflow, no subnormal numbers): the quotients rounded here are 0 or at
  least \<open>1 / totalChunks\<close>, and at most 95. The counters that enter the arithmetic are
  integers below \<open>2^53\<close>, which are doubles themselves.
\<close>

definition rne :: "rat \<Rightarrow> int" where
  "rne y = (let f = \<lfloor>y\<rfloor>; r = y - of_int f
            in if r < 1 / 2 then f else if 1 / 2 < r then f + 1
               else if even f then f else f + 1)"

definition expo :: "rat \<Rightarrow> int" where
  "expo x = (let (p, q) = quotient_of \<bar>x\<bar>; d = bitlen p - bitlen q
             in if 2 powi d \<le> \<bar>x\<bar> then d else d - 1)"

definition fl :: "rat \<Rightarrow> rat" where
  "fl x = (if x = 0 then 0
           else let u = 2 powi (expo x - 52)
                in sgn x * (of_int (rne (\<bar>x\<bar> / u)) * u))"

definition js_div :: "rat \<Rightarrow> rat \<Rightarrow> rat" where
  "js_div x y = fl (x / y)"

definition js_mul :: "rat \<Rightarrow> rat \<Rightarrow> rat" where
  "js_mul x y = fl (x * y)"

definition js_add :: "rat \<Rightarrow> rat \<Rightarrow> rat" where
  "js_add x y = fl (x + y)"

section \<open>Progress reporting\<close>

text \<open>\<open>sendProgressUpdate\<close>: builds the update and posts it; the chunk fields are copied
  only when the payload has both \<open>currentChunk\<close> and \<open>totalChunks\<close>.\<close>

definition progressUpdate ::
  "string \<Rightarrow> string \<Rightarrow> status \<Rightarrow> int \<Rightarrow> nat \<Rightarrow> nat \<Rightarrow> payload option \<Rightarrow> progress_update" where
  "progressUpdate cid ctype st pr nitems processed pl =
     (let chunked = (case pl of None \<Rightarrow> False
                     | Some p \<Rightarrow> payload_currentChunk p \<noteq> None \<and> payload_totalChunks p \<noteq> None)
      in \<lparr> commandId = cid, commandType = ctype, status = st, progress = pr,
           totalItems = nitems, processedItems = processed,
           currentChunk = (if chunked then Option.bind pl payload_currentChunk else None),
           totalChunks = (if chunked then Option.bind pl payload_totalChunks else None),
           chunkSize = (if chunked then Option.bind pl payload_chunkSize else None),
           payload = pl \<rparr>)"

definition sendProgressUpdate ::
  "string \<Rightarrow> string \<Rightarrow> status \<Rightarrow> int \<Rightarrow> nat \<Rightarrow> nat \<Rightarrow> payload option \<Rightarrow> effect" where
  "sendProgressUpdate cid ctype st pr nitems processed pl =
     PostMessage (CommandProgress (progressUpdate cid ctype st pr nitems processed pl))"

section \<open>scan_text_nodes\<close>

text \<open>\<open>node.name || `Unnamed ${node.type}`\<close>.\<close>

definition pathName :: "node \<Rightarrow> string" where
  "pathName n = (if nname n = [] then ''Unnamed '' @ ntype n else nname n)"

text \<open>\<open>collectNodesToProcess\<close>: the nodes pushed on \<open>nodesToProcess\<close>, in order.\<close>

fun collectNodesToProcess :: "node \<Rightarrow> string list \<Rightarrow> nat \<Rightarrow> node_info list"
  and collectChildren :: "node list \<Rightarrow> string list \<Rightarrow> nat \<Rightarrow> node_info list" where
  "collectNodesToProcess (Node i nm ty vis chs cs) parentPath depth =
     (if vis = Some False then []
      else let nodePath = parentPath @ [pathName (Node i nm ty vis chs cs)]
           in \<lparr> ni_node = Node i nm ty vis chs cs, ni_parentPath = nodePath, ni_depth = depth \<rparr>
              # collectChildren chs nodePath (depth + 1))"
| "collectChildren [] nodePath depth = []"
| "collectChildren (child # rest) nodePath depth =
     collectNodesToProcess child nodePath depth @ collectChildren rest nodePath depth"

text \<open>The description built for a text node, shared by \<open>processTextNode\<close> and
  \<open>findTextNodes\<close>.\<close>

definition safeTextNode :: "node \<Rightarrow> string list \<Rightarrow> nat \<Rightarrow> text_info" where
  "safeTextNode n path depth =
     \<lparr> ti_id = nid n, ti_name = (if nname n = [] then ''Text'' else nname n),
       ti_type = ntype n, ti_characters = characters n, ti_path = joinPath path,
       ti_depth = depth \<rparr>"

text \<open>\<open>processTextNode\<close>: \<open>null\<close> for a node that is not text or whose properties cannot be
  read; the highlight waits 100 ms unless it fails first.\<close>

definition processTextNode ::
  "figma_env \<Rightarrow> node \<Rightarrow> string list \<Rightarrow> nat \<Rightarrow> text_info option \<times> effect list" where
  "processTextNode env n parentPath depth =
     (if ntype n \<noteq> ''TEXT'' then (None, [])
      else if readThrows env (nid n) then (None, [])
      else (Some (safeTextNode n parentPath depth),
            if highlightThrows env (nid n) then [] else [Delay 100]))"

text \<open>The loop over the nodes of one chunk: text nodes are processed, and every node is
  followed by \<open>delay(5)\<close>.\<close>

fun processChunkNodes :: "figma_env \<Rightarrow> node_info list \<Rightarrow> text_info list \<times> effect list" where
  "processChunkNodes env [] = ([], [])"
| "processChunkNodes env (nodeInfo # rest) =
     (let (found, work) =
            (if ntype (ni_node nodeInfo) = ''TEXT''
             then (case processTextNode env (ni_node nodeInfo) (ni_parentPath nodeInfo)
                          (ni_depth nodeInfo) of
                     (Some t, w) \<Rightarrow> ([t], w)
                   | (None, w) \<Rightarrow> ([], w))
             else ([], []));
          (found', work') = processChunkNodes env rest
      in (found @ found', work @ [Delay 5] @ work'))"

text \<open>The expression \<open>Math.round(5 + (chunksProcessed / totalChunks) * 90)\<close>, which both
  chunk loops evaluate before and after every group, operation by operation.\<close>

definition chunkProgress :: "nat \<Rightarrow> int \<Rightarrow> int" where
  "chunkProgress chunksDone tchunks =
     Math_round (js_add 5 (js_mul (js_div (of_nat chunksDone) (of_int tchunks)) 90))"

text \<open>The variables of the chunk loop of \<open>scanTextNodes\<close>, and what has happened so far.\<close>

record scan_state =
  sc_i :: nat
  sc_allTextNodes :: "text_info list"
  sc_processedNodes :: nat
  sc_chunksProcessed :: nat
  sc_trace :: "effect list"

text \<open>One iteration of the loop \<open>for (let i = 0; i < totalNodes; i += chunkSize)\<close>.\<close>

definition scanChunk ::
  "figma_env \<Rightarrow> string \<Rightarrow> node_info list \<Rightarrow> nat \<Rightarrow> nat \<Rightarrow> int \<Rightarrow> scan_state \<Rightarrow> scan_state" where
  "scanChunk env cid nodesToProcess totalNodes csize tchunks s =
     (let chunkEnd = min (sc_i s + csize) totalNodes;
          before = sendProgressUpdate cid ''scan_text_nodes'' InProgress
                     (chunkProgress (sc_chunksProcessed s) tchunks) totalNodes
                     (sc_processedNodes s)
                     (Some (PScanChunkStart (sc_chunksProcessed s + 1) tchunks
                              (length (sc_allTextNodes s))));
          chunkNodes = slice nodesToProcess (sc_i s) chunkEnd;
          (chunkTextNodes, work) = processChunkNodes env chunkNodes;
          allTextNodes = sc_allTextNodes s @ chunkTextNodes;
          processedNodes = sc_processedNodes s + length chunkNodes;
          chunksProcessed = sc_chunksProcessed s + 1;
          after = sendProgressUpdate cid ''scan_text_nodes'' InProgress
                    (chunkProgress chunksProcessed tchunks) totalNodes processedNodes
                    (Some (PScanChunkDone chunksProcessed tchunks processedNodes
                             (length allTextNodes) chunkTextNodes));
          pause = (if sc_i s + csize < totalNodes then [Delay 50] else [])
      in \<lparr> sc_i = sc_i s + csize, sc_allTextNodes = allTextNodes,
           sc_processedNodes = processedNodes, sc_chunksProcessed = chunksProcessed,
           sc_trace = sc_trace s @ [before] @ work @ [after] @ pause \<rparr>)"

text \<open>The loop itself. With chunk size 0 the index never advances and the loop does not
  end: the value is then \<open>None\<close>.\<close>

partial_function (option) scanLoop ::
  "figma_env \<Rightarrow> string \<Rightarrow> node_info list \<Rightarrow> nat \<Rightarrow> nat \<Rightarrow> int \<Rightarrow> scan_state \<Rightarrow> scan_state option"
where
  "scanLoop env cid nodesToProcess totalNodes csize tchunks s =
     (if sc_i s < totalNodes
      then scanLoop env cid nodesToProcess totalNodes csize tchunks
             (scanChunk env cid nodesToProcess totalNodes csize tchunks s)
      else Some s)"

declare scanLoop.simps [code]

text \<open>\<open>findTextNodes\<close> (the scan without chunking): the descriptions pushed on
  \<open>textNodes\<close> and the delays awaited, in order.\<close>

fun findTextNodes ::
    "figma_env \<Rightarrow> node \<Rightarrow> string list \<Rightarrow> nat \<Rightarrow> text_info list \<times> effect list"
  and findTextChildren ::
    "figma_env \<Rightarrow> node list \<Rightarrow> string list \<Rightarrow> nat \<Rightarrow> text_info list \<times> effect list" where
  "findTextNodes env (Node i nm ty vis chs cs) parentPath depth =
     (if vis = Some False then ([], [])
      else let nodePath = parentPath @ [pathName (Node i nm ty vis chs cs)];
               (own, work) =
                 (if ty = ''TEXT''
                  then (if readThrows env i then ([], [])
                        else ([safeTextNode (Node i nm ty vis chs cs) nodePath depth],
                              if highlightThrows env i then [] else [Delay 500]))
                  else ([], []));
               (below, work') = findTextChildren env chs nodePath (depth + 1)
           in (own @ below, work @ work'))"
| "findTextChildren env [] nodePath depth = ([], [])"
| "findTextChildren env (child # rest) nodePath depth =
     (let (a, w) = findTextNodes env child nodePath depth;
          (b, w') = findTextChildren env rest nodePath depth
      in (a @ b, w @ w'))"

text \<open>\<open>figma.getNodeByIdAsync(nodeId)\<close>; for an undefined id the answer is taken to be
  \<open>null\<close>.\<close>

definition lookupNode :: "figma_env \<Rightarrow> string option \<Rightarrow> node option" where
  "lookupNode env nodeId = (case nodeId of None \<Rightarrow> None | Some i \<Rightarrow> getNodeByIdAsync env i)"

text \<open>The defaults of the destructuring \<open>{useChunking = true, chunkSize = 10,
  commandId = generateCommandId()}\<close>.\<close>

definition useChunkingOf :: "params \<Rightarrow> bool" where
  "useChunkingOf p = (case p_useChunking p of None \<Rightarrow> True | Some b \<Rightarrow> b)"

definition chunkSizeOf :: "params \<Rightarrow> nat" where
  "chunkSizeOf p = (case p_chunkSize p of None \<Rightarrow> 10 | Some c \<Rightarrow> c)"

definition scanCommandId :: "figma_env \<Rightarrow> params \<Rightarrow> string" where
  "scanCommandId env p = (case p_commandId p of None \<Rightarrow> generateCommandId env | Some c \<Rightarrow> c)"

text \<open>
  \<open>scanTextNodes\<close>. The result is the trace of effects and either the message of the
  \<open>Error\<close> thrown or the value returned; \<open>None\<close> when the chunk loop does not end.
  A call without a parameter object fails at \<open>params.nodeId\<close> before anything is sent.
  The \<open>catch\<close> of the unchunked path is reached only when the traversal itself raises,
  which this node model never does.
\<close>

definition scanTextNodes ::
  "figma_env \<Rightarrow> params option \<Rightarrow> (effect list \<times> (string + scan_result)) option" where
  "scanTextNodes env ps =
     (case ps of
        None \<Rightarrow> Some ([], Inl ''Cannot read properties of undefined (reading 'nodeId')'')
      | Some p \<Rightarrow>
         (let nodeId = p_nodeId p;
              useChunking = useChunkingOf p;
              csize = chunkSizeOf p;
              cid = scanCommandId env p
          in case lookupNode env nodeId of
               None \<Rightarrow>
                 Some ([sendProgressUpdate cid ''scan_text_nodes'' Error 0 0 0
                          (Some (PError (''Node not found: '' @ interpolate nodeId)))],
                       Inl (''Node with ID '' @ interpolate nodeId @ '' not found''))
             | Some n \<Rightarrow>
                 if \<not> useChunking then
                   (let (textNodes, work) = findTextNodes env n [] 0
                    in Some ([sendProgressUpdate cid ''scan_text_nodes'' Started 0 1 0 None]
                             @ work
                             @ [sendProgressUpdate cid ''scan_text_nodes'' Completed 100
                                  (length textNodes) (length textNodes)
                                  (Some (PTextNodes textNodes))],
                             Inr (ScanPlain True (length textNodes) textNodes cid)))
                 else
                   (let started = sendProgressUpdate cid ''scan_text_nodes'' Started 0 0 0
                                    (Some (PChunkSize csize));
                        nodesToProcess = collectNodesToProcess n [] 0;
                        totalNodes = length nodesToProcess;
                        tchunks = Math_ceil (of_nat totalNodes / of_nat csize);
                        plan = sendProgressUpdate cid ''scan_text_nodes'' InProgress 5
                                 totalNodes 0 (Some (PScanPlan totalNodes tchunks csize))
                    in case scanLoop env cid nodesToProcess totalNodes csize tchunks
                              \<lparr> sc_i = 0, sc_allTextNodes = [], sc_processedNodes = 0,
                                sc_chunksProcessed = 0, sc_trace = [started, plan] \<rparr> of
                         None \<Rightarrow> None
                       | Some s \<Rightarrow>
                           Some (sc_trace s
                                 @ [sendProgressUpdate cid ''scan_text_nodes'' Completed 100
                                      totalNodes (sc_processedNodes s)
                                      (Some (PScanDone (sc_allTextNodes s)
                                               (sc_processedNodes s)
                                               (sc_chunksProcessed s)))],
                                 Inr (ScanChunked True (length (sc_allTextNodes s))
                                        (sc_processedNodes s) (sc_chunksProcessed s)
                                        (sc_allTextNodes s) cid)))))"

section \<open>set_multiple_text_contents\<close>

text \<open>
  The texts written so far in a run, by node id: the document changes while the command
  runs, and \<open>node.characters\<close> of a node that was written reads the text written last.
\<close>

type_synonym texts = "string \<rightharpoonup> string"

definition charactersNow :: "texts \<Rightarrow> node \<Rightarrow> string" where
  "charactersNow doc n = (case doc (nid n) of None \<Rightarrow> characters n | Some s \<Rightarrow> s)"

fun writeText :: "texts \<Rightarrow> (string \<times> string) option \<Rightarrow> texts" where
  "writeText doc None = doc"
| "writeText doc (Some (i, s)) = doc(i \<mapsto> s)"

text \<open>
  \<open>setTextContent\<close>, as far as its caller sees it: the message of the error it throws,
  or normal return with the text it wrote, if any. Its \<open>catch\<close> reads \<open>error.message\<close>:
  for a thrown \<open>null\<close> or \<open>undefined\<close> that read raises a \<open>TypeError\<close>, which is what the
  caller then gets. \<open>setCharacters\<close> swallows an exception of the assignment to
  \<open>node.characters\<close>, so \<open>setTextContent\<close> returns normally then, with nothing written.
\<close>

definition setTextContent ::
  "figma_env \<Rightarrow> string option \<Rightarrow> string option \<Rightarrow> string + (string \<times> string) option" where
  "setTextContent env nodeId txt =
     (if falsy nodeId then Inl ''Missing nodeId parameter''
      else if txt = None then Inl ''Missing text parameter''
      else case lookupNode env nodeId of
             None \<Rightarrow> Inl (''Node not found with ID: '' @ interpolate nodeId)
           | Some n \<Rightarrow>
               if ntype n \<noteq> ''TEXT''
               then Inl (''Node is not a text node: '' @ interpolate nodeId)
               else (case setCharactersError env (interpolate nodeId) of
                       Some (ThrownValue m) \<Rightarrow>
                         Inl (''Error setting text content: '' @ interpolate m)
                     | Some (ThrownNullish v) \<Rightarrow> Inl (typeError v ''message'')
                     | None \<Rightarrow>
                         Inr (if assignCharactersThrows env (interpolate nodeId) then None
                              else Some (nid n, interpolate txt))))"

text \<open>
  The function mapped over a chunk, for an element that is an object: its result entry,
  the delay it awaits, and the text it writes. \<open>originalText\<close> is read from the document
  as the earlier groups left it. After a successful change the function waits 500 ms
  before it restores the fills, provided \<open>originalFills\<close> is truthy, that is, unless
  copying the fills raised or gave a falsy value.
\<close>

record outcome =
  o_result :: item_result
  o_work :: "effect list"
  o_write :: "(string \<times> string) option"

definition applyReplacement :: "figma_env \<Rightarrow> texts \<Rightarrow> replacement \<Rightarrow> outcome" where
  "applyReplacement env doc r =
     (if falsy (r_nodeId r) \<or> r_text r = None
      then \<lparr> o_result = ItemFail (or_else (r_nodeId r) ''unknown'')
                          ''Missing nodeId or text in replacement entry'',
             o_work = [], o_write = None \<rparr>
      else case lookupNode env (r_nodeId r) of
             None \<Rightarrow>
               \<lparr> o_result = ItemFail (interpolate (r_nodeId r))
                              (''Node not found: '' @ interpolate (r_nodeId r)),
                 o_work = [], o_write = None \<rparr>
           | Some textNode \<Rightarrow>
               if ntype textNode \<noteq> ''TEXT''
               then \<lparr> o_result = ItemFail (interpolate (r_nodeId r))
                                   (''Node is not a text node: '' @ interpolate (r_nodeId r)
                                    @ '' (type: '' @ ntype textNode @ '')''),
                      o_work = [], o_write = None \<rparr>
               else (let originalText = charactersNow doc textNode;
                         originalFills = (\<not> copyFillsThrows env (interpolate (r_nodeId r))
                                          \<and> \<not> fillsFalsy env (interpolate (r_nodeId r)))
                     in case setTextContent env (r_nodeId r) (r_text r) of
                          Inl m \<Rightarrow>
                            \<lparr> o_result = ItemFail (interpolate (r_nodeId r))
                                           (''Error applying replacement: '' @ m),
                              o_work = [], o_write = None \<rparr>
                        | Inr w \<Rightarrow>
                            \<lparr> o_result = ItemOk (interpolate (r_nodeId r)) originalText
                                           (interpolate (r_text r)),
                              o_work = (if originalFills then [Delay 500] else []),
                              o_write = w \<rparr>))"

text \<open>
  The callback reads \<open>replacement.nodeId\<close> before its \<open>try\<close>: for an element that is
  \<open>null\<close> or \<open>undefined\<close> the promise of that element rejects, and with it
  \<open>Promise.all\<close>. \<open>entryObjects\<close> gives the objects of a chunk, or the first such
  element.
\<close>

fun entryObjects :: "entry list \<Rightarrow> nullish + replacement list" where
  "entryObjects [] = Inr []"
| "entryObjects (NullEntry v # es) = Inl v"
| "entryObjects (Entry r # es) =
     (case entryObjects es of Inl v \<Rightarrow> Inl v | Inr rs \<Rightarrow> Inr (r # rs))"

definition CHUNK_SIZE :: nat where
  "CHUNK_SIZE = 5"

text \<open>The loop \<open>for (let i = 0; i < text.length; i += CHUNK_SIZE)\<close> that fills \<open>chunks\<close>.\<close>

function mkChunks :: "'a list \<Rightarrow> nat \<Rightarrow> 'a list list" where
  "mkChunks txt i =
     (if i < length txt then slice txt i (i + CHUNK_SIZE) # mkChunks txt (i + CHUNK_SIZE)
      else [])"
  by pat_completeness auto
termination
  by (relation "measure (\<lambda>(txt, i). length txt - i)") (auto simp: CHUNK_SIZE_def)

declare mkChunks.simps [simp del]

text \<open>The counters and the result array of \<open>setMultipleTextContents\<close>, what has
  happened so far, and the texts written so far.\<close>

record set_state =
  st_results :: "item_result list"
  st_successCount :: nat
  st_failureCount :: nat
  st_trace :: "effect list"
  st_texts :: texts

text \<open>\<open>chunkResults.forEach\<close>: count and keep each result.\<close>

fun tally :: "item_result list \<Rightarrow> set_state \<Rightarrow> set_state" where
  "tally [] s = s"
| "tally (r # rs) s =
     tally rs
       (if success r
        then s\<lparr> st_successCount := st_successCount s + 1, st_results := st_results s @ [r] \<rparr>
        else s\<lparr> st_failureCount := st_failureCount s + 1, st_results := st_results s @ [r] \<rparr>)"

text \<open>
  One iteration of the loop over \<open>chunks\<close>: the state after it, or the trace so far and
  the message of the error that leaves the loop. The replacements of a chunk run under
  \<open>Promise.all\<close>: each reads the text of its node before any of them writes (a write
  comes three awaits later), their results come in the order of the chunk, and their
  delays and writes are listed in that order too. When \<open>Promise.all\<close> rejects, the other
  replacements of the chunk still run to their end, but the command has thrown by then:
  they post nothing, and what they do is not part of the trace of the command.
\<close>

definition processChunk ::
  "figma_env \<Rightarrow> string \<Rightarrow> nat \<Rightarrow> entry list list \<Rightarrow> nat \<Rightarrow> set_state
     \<Rightarrow> (effect list \<times> string) + set_state" where
  "processChunk env cid textLength chunks chunkIndex s =
     (let chunk = chunks ! chunkIndex;
          before = sendProgressUpdate cid ''set_multiple_text_contents'' InProgress
                     (chunkProgress chunkIndex (int (length chunks))) textLength
                     (st_successCount s + st_failureCount s)
                     (Some (PSetChunkStart (chunkIndex + 1) (length chunks)
                              (st_successCount s) (st_failureCount s)))
      in case entryObjects chunk of
           Inl v \<Rightarrow> Inl (st_trace s @ [before], typeError v ''nodeId'')
         | Inr replacements \<Rightarrow>
             (let outcomes = map (applyReplacement env (st_texts s)) replacements;
                  chunkResults = map o_result outcomes;
                  work = concat (map o_work outcomes);
                  s' = tally chunkResults s;
                  after = sendProgressUpdate cid ''set_multiple_text_contents'' InProgress
                            (chunkProgress (chunkIndex + 1) (int (length chunks))) textLength
                            (st_successCount s' + st_failureCount s')
                            (Some (PSetChunkDone (chunkIndex + 1) (length chunks)
                                     (st_successCount s') (st_failureCount s') chunkResults));
                  pause = (if chunkIndex < length chunks - 1 then [Delay 1000] else [])
              in Inr (s'\<lparr> st_trace := st_trace s @ [before] @ work @ [after] @ pause,
                           st_texts := foldl writeText (st_texts s) (map o_write outcomes) \<rparr>)))"

function processChunks ::
  "figma_env \<Rightarrow> string \<Rightarrow> nat \<Rightarrow> entry list list \<Rightarrow> nat \<Rightarrow> set_state
     \<Rightarrow> (effect list \<times> string) + set_state" where
  "processChunks env cid textLength chunks chunkIndex s =
     (if chunkIndex < length chunks
      then (case processChunk env cid textLength chunks chunkIndex s of
              Inl failure \<Rightarrow> Inl failure
            | Inr s' \<Rightarrow> processChunks env cid textLength chunks (chunkIndex + 1) s')
      else Inr s)"
  by pat_completeness auto
termination
  by (relation "measure (\<lambda>(env, cid, textLength, chunks, chunkIndex, s). length chunks - chunkIndex)")
     auto

declare processChunks.simps [simp del]

text \<open>
  \<open>setMultipleTextContents\<close>: the trace of effects, and the message of the error
  thrown or the aggregate returned. Without a parameter object the call fails at
  \<open>params.commandId\<close>. \<open>p_text = None\<close> stands for a \<open>text\<close> that is missing or not an
  array. An error that leaves the chunk loop leaves the function: there is no \<open>catch\<close>
  around the loop.
\<close>

definition setMultipleTextContents ::
  "figma_env \<Rightarrow> params option \<Rightarrow> effect list \<times> (string + set_result)" where
  "setMultipleTextContents env ps =
     (case ps of
        None \<Rightarrow> ([], Inl ''Cannot read properties of undefined (reading 'commandId')'')
      | Some p \<Rightarrow>
         (let cid = or_else (p_commandId p) (generateCommandId env)
          in case (falsy (p_nodeId p), p_text p) of
               (True, t) \<Rightarrow>
                 ([sendProgressUpdate cid ''set_multiple_text_contents'' Error 0 0 0
                     (Some (PError ''Missing required parameters: nodeId and text array''))],
                  Inl ''Missing required parameters: nodeId and text array'')
             | (False, None) \<Rightarrow>
                 ([sendProgressUpdate cid ''set_multiple_text_contents'' Error 0 0 0
                     (Some (PError ''Missing required parameters: nodeId and text array''))],
                  Inl ''Missing required parameters: nodeId and text array'')
             | (False, Some txt) \<Rightarrow>
                 (let started = sendProgressUpdate cid ''set_multiple_text_contents'' Started 0
                                  (length txt) 0 (Some (PTotal (length txt)));
                      chunks = mkChunks txt 0;
                      plan = sendProgressUpdate cid ''set_multiple_text_contents'' InProgress 5
                               (length txt) 0
                               (Some (PSetPlan (length txt) (length chunks) CHUNK_SIZE))
                  in case processChunks env cid (length txt) chunks 0
                            \<lparr> st_results = [], st_successCount = 0, st_failureCount = 0,
                              st_trace = [started, plan], st_texts = Map.empty \<rparr> of
                       Inl (tr, m) \<Rightarrow> (tr, Inl m)
                     | Inr s \<Rightarrow>
                        (st_trace s
                         @ [sendProgressUpdate cid ''set_multiple_text_contents'' Completed 100
                              (length txt) (st_successCount s + st_failureCount s)
                              (Some (PSetDone (length txt) (st_successCount s)
                                       (st_failureCount s) (length chunks) (st_results s)))],
                         Inr \<lparr> sr_success = (0 < st_successCount s),
                               sr_nodeId = interpolate (p_nodeId p),
                               replacementsApplied = st_successCount s,
                               replacementsFailed = st_failureCount s,
                               totalReplacements = length txt,
                               results = st_results s,
                               completedInChunks = length chunks,
                               sr_commandId = cid \<rparr>))))"

section \<open>Command dispatch\<close>










section \<open>The channel registry\<close>

text \<open>
  Modelled from the spec: the Channel Registry of the relay (section 4.1), whose
  implementation, the socket server, is not among the sources. A peer is a connection
  handle; the registry lists the channels that exist, each \<open>{channelId, peers}\<close>, in the
  order of their creation.
\<close>

type_synonym peer = nat

type_synonym registry = "(string \<times> peer list) list"

text \<open>Modelled from the spec: the channel a peer is a member of, and the peers of a
  channel (none when the channel does not exist).\<close>

definition channelOf :: "registry \<Rightarrow> peer \<Rightarrow> string option" where
  "channelOf reg p = map_option fst (find (\<lambda>ch. p \<in> set (snd ch)) reg)"

definition peersOf :: "registry \<Rightarrow> string \<Rightarrow> peer list" where
  "peersOf reg c = (case map_of reg c of None \<Rightarrow> [] | Some ps \<Rightarrow> ps)"

text \<open>
  Modelled from the spec: \<open>join(peer, channelId)\<close> adds the peer to the channel's peer set
  and creates the channel if it is absent; it fails only if the peer is already a member
  of a different channel. (The data model's remark that joining leaves the previous
  channel is not followed: the contract of section 4.1 asks for an explicit leave.)
\<close>

datatype registry_error = MemberOfOtherChannel string

definition join :: "registry \<Rightarrow> peer \<Rightarrow> string \<Rightarrow> registry_error + registry" where
  "join reg p c =
     (case channelOf reg p of
        Some c' \<Rightarrow> if c' = c then Inr reg else Inl (MemberOfOtherChannel c')
      | None \<Rightarrow>
          if c \<in> set (map fst reg)
          then Inr (map (\<lambda>ch. if fst ch = c then (c, snd ch @ [p]) else ch) reg)
          else Inr (reg @ [(c, [p])]))"

text \<open>Modelled from the spec: \<open>leave(peer)\<close> removes the membership; a channel whose peer
  set becomes empty is dropped.\<close>

definition leave :: "registry \<Rightarrow> peer \<Rightarrow> registry" where
  "leave reg p =
     filter (\<lambda>ch. snd ch \<noteq> []) (map (\<lambda>ch. (fst ch, removeAll p (snd ch))) reg)"

text \<open>Modelled from the spec: \<open>broadcast(senderPeer, frame)\<close> delivers the frame to every
  other peer of the sender's channel; the result lists the deliveries.\<close>

definition broadcast :: "registry \<Rightarrow> peer \<Rightarrow> 'f \<Rightarrow> (peer \<times> 'f) list" where
  "broadcast reg sender frame =
     (case channelOf reg sender of
        None \<Rightarrow> []
      | Some c \<Rightarrow> map (\<lambda>q. (q, frame)) (filter (\<lambda>q. q \<noteq> sender) (peersOf reg c)))"

text \<open>The registries that joins and leaves can produce from the empty one.\<close>

inductive reachable :: "registry \<Rightarrow> bool" where
  start: "reachable []"
| joined: "reachable reg \<Longrightarrow> join reg p c = Inr reg' \<Longrightarrow> reachable reg'"
| left: "reachable reg \<Longrightarrow> reachable (leave reg p)"

text \<open>No channel is listed twice, and no peer is a member twice.\<close>

definition registry_wf :: "registry \<Rightarrow> bool" where
  "registry_wf reg \<longleftrightarrow> distinct (map fst reg) \<and> distinct (concat (map snd reg))"

text \<open>Two channels, each with a client and a host.\<close>

definition sample_registry :: registry where
  "sample_registry = [(''A'', [1, 2]), (''B'', [3, 4])]"

section \<open>Reading a trace\<close>

text \<open>The progress updates posted in a trace, in emission order.\<close>

fun updates :: "effect list \<Rightarrow> progress_update list" where
  "updates [] = []"
| "updates (PostMessage (CommandProgress u) # es) = u # updates es"
| "updates (e # es) = updates es"

text \<open>The responses (\<open>command-result\<close> and \<open>command-error\<close>) posted in a trace, each with
  the request id it carries.\<close>

fun responses :: "effect list \<Rightarrow> ui_message list" where
  "responses [] = []"
| "responses (PostMessage (CommandResult rid r) # es) = CommandResult rid r # responses es"
| "responses (PostMessage (CommandError rid m) # es) = CommandError rid m # responses es"
| "responses (e # es) = responses es"

text \<open>An update sent right before the work of a chunk group, and one sent right after it.\<close>

fun startsChunk :: "payload option \<Rightarrow> bool" where
  "startsChunk (Some (PScanChunkStart c t f)) = True"
| "startsChunk (Some (PSetChunkStart c t s f)) = True"
| "startsChunk other = False"

fun endsChunk :: "payload option \<Rightarrow> bool" where
  "endsChunk (Some (PScanChunkDone c t p f r)) = True"
| "endsChunk (Some (PSetChunkDone c t s f r)) = True"
| "endsChunk other = False"

text \<open>
  The outline of a chunked run: where a group starts, where it is done, and where the
  delay of the given length (the one between groups) is awaited. Everything else,
  also delays of other lengths, is dropped.
\<close>

datatype mark = GroupStart | GroupDone | Pause

fun skeleton :: "nat \<Rightarrow> effect list \<Rightarrow> mark list" where
  "skeleton d [] = []"
| "skeleton d (PostMessage (CommandProgress u) # es) =
     (if startsChunk (payload u) then GroupStart # skeleton d es
      else if endsChunk (payload u) then GroupDone # skeleton d es
      else skeleton d es)"
| "skeleton d (Delay n # es) = (if n = d then Pause # skeleton d es else skeleton d es)"
| "skeleton d (e # es) = skeleton d es"

text \<open>The outline of \<open>n\<close> groups with a pause between consecutive groups and none after
  the last.\<close>

definition groups_with_pauses :: "nat \<Rightarrow> mark list" where
  "groups_with_pauses n =
     (if n = 0 then []
      else concat (replicate (n - 1) [GroupStart, GroupDone, Pause]) @ [GroupStart, GroupDone])"

text \<open>
  Walks through the updates counting the groups that are done: \<open>P\<close> must hold of the
  number of groups done and the progress reported, for an update sent before a group
  with the groups done so far, for an update sent after a group with the groups done
  including its own.
\<close>

fun chunk_phase_ok :: "(nat \<Rightarrow> int \<Rightarrow> bool) \<Rightarrow> nat \<Rightarrow> progress_update list \<Rightarrow> bool" where
  "chunk_phase_ok P k [] = True"
| "chunk_phase_ok P k (u # us) =
     (if endsChunk (payload u)
      then P (k + 1) (progress u) \<and> chunk_phase_ok P (k + 1) us
      else if startsChunk (payload u)
      then P k (progress u) \<and> chunk_phase_ok P k us
      else chunk_phase_ok P k us)"

text \<open>What the invariants below record of a progress value: it is the value of the code's
  expression for the groups done, of which there are at most \<open>t\<close>.\<close>

definition reported :: "int \<Rightarrow> nat \<Rightarrow> int \<Rightarrow> bool" where
  "reported t k v \<longleftrightarrow> v = chunkProgress k t \<and> int k \<le> t \<and> 0 < t"

text \<open>A result entry without its \<open>originalText\<close>, and the result entry of a replacement
  applied on its own, to the document as it was when the command started.\<close>

fun forgetOriginal :: "item_result \<Rightarrow> item_result" where
  "forgetOriginal (ItemOk n orig new) = ItemOk n [] new"
| "forgetOriginal (ItemFail n e) = ItemFail n e"

definition alone :: "figma_env \<Rightarrow> replacement \<Rightarrow> item_result" where
  "alone env r = o_result (applyReplacement env Map.empty r)"

text \<open>A sequence of updates that ends with its only \<open>completed\<close> update, at
  progress 100.\<close>

definition completes :: "progress_update list \<Rightarrow> bool" where
  "completes us \<longleftrightarrow>
     us \<noteq> [] \<and> status (last us) = Completed \<and> progress (last us) = 100
     \<and> (\<forall>u \<in> set (butlast us). status u \<noteq> Completed)"


section \<open>Node trees\<close>

text \<open>A node and everything below it, in document order.\<close>

fun descendants :: "node \<Rightarrow> node list" where
  "descendants (Node i nm ty vis chs cs) =
     Node i nm ty vis chs cs # concat (map descendants chs)"

text \<open>The nodes that are reached from a node without passing a node whose \<open>visible\<close> is
  \<open>false\<close>, and the nodes that are not: an invisible node and everything below it.\<close>

fun shown :: "node \<Rightarrow> node list" where
  "shown (Node i nm ty vis chs cs) =
     (if vis = Some False then []
      else Node i nm ty vis chs cs # concat (map shown chs))"

fun hidden :: "node \<Rightarrow> node list" where
  "hidden (Node i nm ty vis chs cs) =
     (if vis = Some False then descendants (Node i nm ty vis chs cs)
      else concat (map hidden chs))"

text \<open>The \<open>textNodes\<close> field of the result of a scan.\<close>

fun textNodesOf :: "scan_result \<Rightarrow> text_info list" where
  "textNodesOf (ScanPlain ok n tns cid) = tns"
| "textNodesOf (ScanChunked ok n pn ch tns cid) = tns"

section \<open>A sample document and sample calls\<close>

text \<open>A frame with a text node, a hidden group that holds a text node, and an unnamed
  text node whose characters cannot be set; a host of which one handler rejects with
  \<open>undefined\<close>; a scan of the frame in chunks of two, two replacements of which the
  second names a node that does not exist, an empty list of replacements, two
  replacements of which the second raises, a replacement followed by \<open>null\<close>, a list
  that holds only \<open>undefined\<close>, and six replacements of one node, which make two
  groups.\<close>

definition sample_title :: node where
  "sample_title = Node ''1:2'' ''Title'' ''TEXT'' None [] ''Hello''"

definition sample_unnamed :: node where
  "sample_unnamed = Node ''1:5'' [] ''TEXT'' (Some True) [] ''World''"

definition sample_document :: node where
  "sample_document =
     Node ''1:1'' ''Card'' ''FRAME'' (Some True)
       [sample_title,
        Node ''1:3'' ''Hidden'' ''GROUP'' (Some False)
          [Node ''1:4'' ''Note'' ''TEXT'' (Some True) [] ''secret''] [],
        sample_unnamed] []"

definition sample_env :: figma_env where
  "sample_env =
     \<lparr> getNodeByIdAsync = (\<lambda>i. if i = ''1:1'' then Some sample_document
                               else if i = ''1:2'' then Some sample_title
                               else if i = ''1:5'' then Some sample_unnamed else None),
       readThrows = (\<lambda>i. False), copyFillsThrows = (\<lambda>i. False),
       fillsFalsy = (\<lambda>i. False), assignFillsThrows = (\<lambda>i. False),
       setCharactersError =
         (\<lambda>i. if i = ''1:5'' then Some (ThrownValue (Some ''font missing'')) else None),
       assignCharactersThrows = (\<lambda>i. False),
       generateCommandId = ''cmd_sample'',
       leafHandler = (\<lambda>c ps. if c = ''get_selection'' then Rejected (ThrownNullish Undefined)
                              else Resolved ''{}'') \<rparr>"

definition sample_scan :: params where
  "sample_scan =
     \<lparr> p_nodeId = Some ''1:1'', p_nodeIds = None, p_text = None, p_useChunking = None,
       p_chunkSize = Some 2, p_commandId = Some ''c1'' \<rparr>"


definition sample_empty :: params where
  "sample_empty =
     \<lparr> p_nodeId = Some ''1:1'', p_nodeIds = None, p_text = Some [],
       p_useChunking = None, p_chunkSize = None, p_commandId = Some ''c3'' \<rparr>"




definition sample_repeated :: params where
  "sample_repeated =
     \<lparr> p_nodeId = Some ''1:1'', p_nodeIds = None,
       p_text = Some (map (\<lambda>t. Entry \<lparr> r_nodeId = Some ''1:2'', r_text = Some t \<rparr>)
                        [''A'', ''B'', ''C'', ''D'', ''E'', ''F'']),
       p_useChunking = None, p_chunkSize = None, p_commandId = Some ''c7'' \<rparr>"

section \<open>Invariants of the chunk loops\<close>

text \<open>
  What holds of the trace of a chunk loop after \<open>k\<close> groups, with \<open>p\<close> items processed:
  \<open>d\<close> is the delay between groups, \<open>t\<close> the number of groups, \<open>n\<close> the number of
  items, and \<open>paused\<close> says whether the last group was followed by the delay.
\<close>

definition trace_inv :: "nat \<Rightarrow> int \<Rightarrow> nat \<Rightarrow> nat \<Rightarrow> nat \<Rightarrow> bool \<Rightarrow> effect list \<Rightarrow> bool" where
  "trace_inv d t n k p paused tr \<longleftrightarrow>
     sorted (map progress (updates tr))
   \<and> (\<forall>u \<in> set (updates tr). progress u \<le> chunkProgress k t \<and> status u \<noteq> Completed
          \<and> status u \<noteq> Error)
   \<and> length (filter (\<lambda>u. status u = InProgress) (updates tr)) = 1 + 2 * k
   \<and> 2 \<le> length (updates tr)
   \<and> status (updates tr ! 0) = Started \<and> progress (updates tr ! 0) = 0
   \<and> status (updates tr ! 1) = InProgress \<and> progress (updates tr ! 1) = 5
   \<and> processedItems (updates tr ! 1) = 0
   \<and> \<not> startsChunk (payload (updates tr ! 1)) \<and> \<not> endsChunk (payload (updates tr ! 1))
   \<and> (\<forall>u \<in> set (drop 2 (updates tr)). status u = InProgress
          \<and> (startsChunk (payload u) \<or> endsChunk (payload u))
          \<and> 5 \<le> progress u \<and> progress u \<le> 95)
   \<and> (\<forall>u \<in> set (drop 1 (updates tr)). totalItems u = n)
   \<and> status (last (updates tr)) = InProgress \<and> processedItems (last (updates tr)) = p
   \<and> skeleton d tr =
       (if k = 0 then []
        else concat (replicate (k - 1) [GroupStart, GroupDone, Pause])
             @ [GroupStart, GroupDone] @ (if paused then [Pause] else []))
   \<and> chunk_phase_ok (reported t) 0 (updates tr)
   \<and> length (filter (\<lambda>u. endsChunk (payload u)) (updates tr)) = k
   \<and> responses tr = []"

text \<open>The invariant of the loop of \<open>scanTextNodes\<close>.\<close>

definition scan_inv :: "node_info list \<Rightarrow> nat \<Rightarrow> int \<Rightarrow> scan_state \<Rightarrow> bool" where
  "scan_inv ns c t s \<longleftrightarrow>
     sc_i s = sc_chunksProcessed s * c
   \<and> sc_processedNodes s = min (sc_i s) (length ns)
   \<and> int (sc_chunksProcessed s) \<le> t
   \<and> ti_id ` set (sc_allTextNodes s) \<subseteq> (nid \<circ> ni_node) ` set ns
   \<and> trace_inv 50 t (length ns) (sc_chunksProcessed s) (sc_processedNodes s)
        (sc_i s < length ns) (sc_trace s)"

text \<open>The invariant of the loop of \<open>setMultipleTextContents\<close>, before the chunk with
  index \<open>k\<close>.\<close>

definition set_inv ::
  "figma_env \<Rightarrow> entry list \<Rightarrow> nat \<Rightarrow> nat \<Rightarrow> set_state \<Rightarrow> bool" where
  "set_inv env txt t k s \<longleftrightarrow>
     (\<exists>rs. entryObjects (take (k * CHUNK_SIZE) txt) = Inr rs
         \<and> map forgetOriginal (st_results s) = map (\<lambda>r. forgetOriginal (alone env r)) rs)
   \<and> st_successCount s = length (filter success (st_results s))
   \<and> st_failureCount s = length (filter (\<lambda>r. \<not> success r) (st_results s))
   \<and> trace_inv 1000 (int t) (length txt) k (length (st_results s)) (k < t) (st_trace s)"

text \<open>What holds of the trace of a chunked command that throws.\<close>

definition aborted_run :: "effect list \<Rightarrow> bool" where
  "aborted_run tr \<longleftrightarrow>
     sorted (map progress (updates tr))
   \<and> (\<forall>u \<in> set (updates tr). status u \<noteq> Completed)
   \<and> responses tr = []"

text \<open>What holds of the whole trace of a chunked command that returns: \<open>d\<close> is the
  delay between groups, \<open>t\<close> the number of groups and \<open>n\<close> the number of items.\<close>

definition chunked_run :: "nat \<Rightarrow> int \<Rightarrow> nat \<Rightarrow> effect list \<Rightarrow> bool" where
  "chunked_run d t n tr \<longleftrightarrow>
     length (filter (\<lambda>u. status u = InProgress) (updates tr)) = 1 + 2 * nat t
   \<and> processedItems (last (filter (\<lambda>u. status u = InProgress) (updates tr))) = n
   \<and> skeleton d tr = groups_with_pauses (nat t)
   \<and> length (filter (\<lambda>e. e = Delay d) tr) = nat t - 1
   \<and> chunk_phase_ok (reported t) 0 (updates tr)
   \<and> status (updates tr ! 1) = InProgress \<and> progress (updates tr ! 1) = 5
   \<and> processedItems (updates tr ! 1) = 0
   \<and> \<not> startsChunk (payload (updates tr ! 1)) \<and> \<not> endsChunk (payload (updates tr ! 1))
   \<and> (\<forall>u \<in> set (drop 2 (butlast (updates tr))). status u = InProgress
          \<and> (startsChunk (payload u) \<or> endsChunk (payload u))
          \<and> 5 \<le> progress u \<and> progress u \<le> 95)
   \<and> (\<forall>u \<in> set (drop 1 (updates tr)). totalItems u = n)
   \<and> status (last (updates tr)) = Completed \<and> processedItems (last (updates tr)) = n
   \<and> totalItems (last (updates tr)) = n
   \<and> responses tr = []"

section \<open>Arithmetic of chunk counts and progress\<close>

lemma rne_floor: "\<lfloor>y\<rfloor> \<le> rne y \<and> rne y \<le> \<lfloor>y\<rfloor> + 1"
  by (simp add: rne_def Let_def)

lemma rne_int [simp]: "rne (of_int n) = n"
  by (simp add: rne_def Let_def)

lemma rne_mono:
  assumes "x \<le> y"
  shows "rne x \<le> rne y"
proof (cases "\<lfloor>x\<rfloor> < \<lfloor>y\<rfloor>")
  case True
  then show ?thesis
    using rne_floor[of x] rne_floor[of y] by linarith
next
  case False
  then have eq: "\<lfloor>x\<rfloor> = \<lfloor>y\<rfloor>"
    using floor_mono[OF assms] by linarith
  then show ?thesis
    using assms by (auto simp: rne_def Let_def)
qed

lemma rne_err: "\<bar>of_int (rne y) - y\<bar> \<le> 1 / 2"
proof -
  have "of_int \<lfloor>y\<rfloor> \<le> y" "y < of_int \<lfloor>y\<rfloor> + 1"
    by linarith+
  then show ?thesis
    unfolding rne_def Let_def by (simp add: abs_if) linarith
qed

lemma expo_bounds:
  assumes "0 < x"
  shows "2 powi expo x \<le> x" and "x < 2 powi (expo x + 1)"
proof -
  obtain p q where pq: "quotient_of x = (p, q)"
    by (cases "quotient_of x")
  have q: "0 < q" using pq by (rule quotient_of_denom_pos)
  have x: "x = of_int p / of_int q" using pq by (rule quotient_of_div)
  have p: "0 < p"
    using assms q unfolding x by (simp add: zero_less_divide_iff)
  let ?a = "bitlen p" and ?b = "bitlen q"
  have a1: "1 \<le> ?a" and b1: "1 \<le> ?b"
    using p q bitlen_eq_zero_iff[of p] bitlen_eq_zero_iff[of q] bitlen_nonneg[of p] bitlen_nonneg[of q]
    by linarith+
  have pb: "2 ^ nat (?a - 1) \<le> p" "p < 2 ^ nat ?a"
    using bitlen_bounds[OF p] by simp_all
  have qb: "2 ^ nat (?b - 1) \<le> q" "q < 2 ^ nat ?b"
    using bitlen_bounds[OF q] by simp_all
  have P1: "(2 :: rat) powi (?a - 1) \<le> of_int p"
  proof -
    have "(of_int (2 ^ nat (?a - 1)) :: rat) \<le> of_int p"
      using pb(1) by (simp only: of_int_le_iff)
    then show ?thesis using a1 by (simp add: power_int_nonneg_exp)
  qed
  have P2: "(of_int p :: rat) < 2 powi ?a"
  proof -
    have "(of_int p :: rat) < of_int (2 ^ nat ?a)"
      using pb(2) by (simp only: of_int_less_iff)
    then show ?thesis using a1 by (simp add: power_int_nonneg_exp)
  qed
  have Q1: "(2 :: rat) powi (?b - 1) \<le> of_int q"
  proof -
    have "(of_int (2 ^ nat (?b - 1)) :: rat) \<le> of_int q"
      using qb(1) by (simp only: of_int_le_iff)
    then show ?thesis using b1 by (simp add: power_int_nonneg_exp)
  qed
  have Q2: "(of_int q :: rat) < 2 powi ?b"
  proof -
    have "(of_int q :: rat) < of_int (2 ^ nat ?b)"
      using qb(2) by (simp only: of_int_less_iff)
    then show ?thesis using b1 by (simp add: power_int_nonneg_exp)
  qed
  let ?d = "?a - ?b"
  have qpos: "(0 :: rat) < of_int q" using q by simp
  have up: "x < 2 powi (?d + 1)"
  proof -
    have "x < 2 powi ?a / of_int q"
      unfolding x using P2 qpos by (simp add: divide_strict_right_mono)
    also have "\<dots> \<le> 2 powi ?a / 2 powi (?b - 1)"
      using Q1 qpos by (intro divide_left_mono) (simp_all add: zero_less_mult_iff)
    also have "\<dots> = 2 powi (?a - (?b - 1))"
      by (simp add: power_int_diff)
    finally show ?thesis by (simp add: algebra_simps)
  qed
  have lo: "2 powi (?d - 1) \<le> x"
  proof -
    have "?d - 1 = (?a - 1) - ?b" by simp
    then have "(2 :: rat) powi (?d - 1) = 2 powi (?a - 1) / 2 powi ?b"
      by (simp add: power_int_diff)
    also have "\<dots> \<le> of_int p / 2 powi ?b"
      using P1 by (intro divide_right_mono) simp_all
    also have "\<dots> \<le> of_int p / of_int q"
      using Q2 qpos p by (intro divide_left_mono) (simp_all add: zero_less_mult_iff)
    finally show ?thesis by (simp only: x)
  qed
  have e: "expo x = (if 2 powi ?d \<le> x then ?d else ?d - 1)"
    using assms pq by (simp add: expo_def Let_def)
  show "2 powi expo x \<le> x"
    unfolding e using lo by simp
  show "x < 2 powi (expo x + 1)"
    unfolding e using up by simp
qed

lemma expo_mono:
  assumes "0 < x" "x \<le> y"
  shows "expo x \<le> expo y"
proof (rule ccontr)
  assume "\<not> expo x \<le> expo y"
  then have "expo y + 1 \<le> expo x" by simp
  then have "(2 :: rat) powi (expo y + 1) \<le> 2 powi expo x"
    by (intro power_int_increasing) simp_all
  moreover have "y < 2 powi (expo y + 1)" "2 powi expo x \<le> x"
    using assms expo_bounds[of x] expo_bounds[of y] by simp_all
  ultimately show False using assms by linarith
qed

lemma fl_pos:
  assumes "0 < x"
  shows "fl x = of_int (rne (x / 2 powi (expo x - 52))) * 2 powi (expo x - 52)"
  using assms by (simp add: fl_def Let_def)

lemma fl_range:
  assumes "0 < x"
  shows "2 powi expo x \<le> fl x" and "fl x \<le> 2 powi (expo x + 1)"
proof -
  let ?u = "(2 :: rat) powi (expo x - 52)"
  have u: "0 < ?u" by simp
  have e1: "(2 :: rat) powi expo x = 2 ^ 52 * ?u"
    by (simp add: power_int_diff)
  have e2: "(2 :: rat) powi (expo x + 1) = 2 ^ 53 * ?u"
    by (simp add: power_int_diff power_int_add)
  have "of_int (2 ^ 52) \<le> x / ?u"
    using expo_bounds(1)[OF assms] u unfolding e1 by (simp add: pos_le_divide_eq)
  then have "rne (of_int (2 ^ 52)) \<le> rne (x / ?u)"
    by (rule rne_mono)
  then have "(of_int (2 ^ 52) :: rat) \<le> of_int (rne (x / ?u))"
    unfolding rne_int by (simp only: of_int_le_iff)
  then have "of_int (2 ^ 52) * ?u \<le> of_int (rne (x / ?u)) * ?u"
    using u by (intro mult_right_mono) simp_all
  then show "2 powi expo x \<le> fl x"
    unfolding fl_pos[OF assms] e1 by simp
  have "x / ?u \<le> of_int (2 ^ 53)"
    using expo_bounds(2)[OF assms] u unfolding e2 by (simp add: pos_divide_le_eq)
  then have "rne (x / ?u) \<le> rne (of_int (2 ^ 53))"
    by (rule rne_mono)
  then have "(of_int (rne (x / ?u)) :: rat) \<le> of_int (2 ^ 53)"
    unfolding rne_int by (simp only: of_int_le_iff)
  then have "of_int (rne (x / ?u)) * ?u \<le> of_int (2 ^ 53) * ?u"
    using u by (intro mult_right_mono) simp_all
  then show "fl x \<le> 2 powi (expo x + 1)"
    unfolding fl_pos[OF assms] e2 by simp
qed

lemma fl_zero [simp]: "fl 0 = 0"
  by (simp add: fl_def)

lemma fl_mono:
  assumes "0 \<le> x" "x \<le> y"
  shows "fl x \<le> fl y"
proof (cases "x = 0")
  case True
  show ?thesis
  proof (cases "y = 0")
    case True
    with \<open>x = 0\<close> show ?thesis by simp
  next
    case False
    with assms True have "0 < y" by simp
    then have "0 < fl y"
      using fl_range(1)[of y] by (meson less_le_trans zero_less_numeral zero_less_power_int)
    with True show ?thesis by simp
  qed
next
  case False
  with assms have x: "0 < x" and y: "0 < y" by simp_all
  have le: "expo x \<le> expo y" using x assms(2) by (rule expo_mono)
  show ?thesis
  proof (cases "expo x = expo y")
    case True
    let ?u = "(2 :: rat) powi (expo y - 52)"
    have u: "0 < ?u" by simp
    have "x / ?u \<le> y / ?u"
      using assms(2) u by (simp add: divide_right_mono)
    then have "rne (x / ?u) \<le> rne (y / ?u)" by (rule rne_mono)
    then have "(of_int (rne (x / ?u)) :: rat) \<le> of_int (rne (y / ?u))"
      by (simp only: of_int_le_iff)
    then have "of_int (rne (x / ?u)) * ?u \<le> of_int (rne (y / ?u)) * ?u"
      using u by (intro mult_right_mono) simp_all
    then show ?thesis
      unfolding fl_pos[OF x] fl_pos[OF y] True .
  next
    case False
    with le have "expo x + 1 \<le> expo y" by simp
    then have "(2 :: rat) powi (expo x + 1) \<le> 2 powi expo y"
      by (intro power_int_increasing) simp_all
    with fl_range(2)[OF x] fl_range(1)[OF y] show ?thesis by linarith
  qed
qed

lemma fl_err:
  assumes "0 \<le> x"
  shows "\<bar>fl x - x\<bar> \<le> x / 2 ^ 53"
proof (cases "x = 0")
  case True
  then show ?thesis by simp
next
  case False
  with assms have x: "0 < x" by simp
  let ?u = "(2 :: rat) powi (expo x - 52)"
  have u: "0 < ?u" by simp
  have "fl x - x = (of_int (rne (x / ?u)) - x / ?u) * ?u"
    unfolding fl_pos[OF x] using u by (simp add: algebra_simps)
  then have "\<bar>fl x - x\<bar> = \<bar>of_int (rne (x / ?u)) - x / ?u\<bar> * ?u"
    using u by (simp add: abs_mult)
  also have "\<dots> \<le> 1 / 2 * ?u"
    using rne_err[of "x / ?u"] u by (intro mult_right_mono) simp_all
  also have "\<dots> = 2 powi expo x / 2 ^ 53"
    by (simp add: power_int_diff)
  also have "\<dots> \<le> x / 2 ^ 53"
    using expo_bounds(1)[OF x] by (intro divide_right_mono) simp_all
  finally show ?thesis .
qed


lemma fl_nonneg: "0 \<le> x \<Longrightarrow> 0 \<le> fl x"
  using fl_mono[of 0 x] by simp

lemma fl_values: "fl 1 = 1" "fl 5 = 5" "fl 90 = 90" "fl 95 = 95"
  by code_simp+

lemma round_values: "Math_round 5 = 5" "Math_round 95 = 95"
  by code_simp+

lemma Math_round_mono: "x \<le> y \<Longrightarrow> Math_round x \<le> Math_round y"
  unfolding Math_round_def by (intro floor_mono) simp

lemma chunkProgress_mono:
  assumes "k \<le> k'" "0 \<le> t"
  shows "chunkProgress k t \<le> chunkProgress k' t"
proof -
  have q: "(0 :: rat) \<le> of_nat k / of_int t" "(of_nat k :: rat) / of_int t \<le> of_nat k' / of_int t"
    using assms by (simp_all add: divide_right_mono)
  have a: "0 \<le> js_div (of_nat k) (of_int t)"
          "js_div (of_nat k) (of_int t) \<le> js_div (of_nat k') (of_int t)"
    unfolding js_div_def using q by (simp_all add: fl_nonneg fl_mono)
  have b: "0 \<le> js_mul (js_div (of_nat k) (of_int t)) 90"
          "js_mul (js_div (of_nat k) (of_int t)) 90 \<le> js_mul (js_div (of_nat k') (of_int t)) 90"
    unfolding js_mul_def using a by (simp_all add: fl_nonneg fl_mono)
  have "js_add 5 (js_mul (js_div (of_nat k) (of_int t)) 90)
        \<le> js_add 5 (js_mul (js_div (of_nat k') (of_int t)) 90)"
    unfolding js_add_def using b by (intro fl_mono) simp_all
  then show ?thesis
    unfolding chunkProgress_def by (rule Math_round_mono)
qed

lemma chunkProgress_lower:
  assumes "0 \<le> t"
  shows "5 \<le> chunkProgress k t"
proof -
  have "(0 :: rat) \<le> of_nat k / of_int t"
    using assms by simp
  then have "0 \<le> js_div (of_nat k) (of_int t)"
    unfolding js_div_def by (rule fl_nonneg)
  then have "0 \<le> js_mul (js_div (of_nat k) (of_int t)) 90"
    unfolding js_mul_def by (intro fl_nonneg) simp
  then have "fl 5 \<le> js_add 5 (js_mul (js_div (of_nat k) (of_int t)) 90)"
    unfolding js_add_def by (intro fl_mono) simp_all
  then have "Math_round 5 \<le> chunkProgress k t"
    unfolding chunkProgress_def fl_values by (rule Math_round_mono)
  then show ?thesis by (simp only: round_values)
qed

lemma quotient_le_one:
  assumes "int k \<le> t"
  shows "(of_nat k :: rat) / of_int t \<le> 1"
proof (cases "t = 0")
  case True
  then show ?thesis by simp
next
  case False
  with assms have "0 < t" by linarith
  moreover have "(of_nat k :: rat) \<le> of_int t"
    using assms by (metis of_int_le_iff of_int_of_nat_eq)
  ultimately show ?thesis by (simp add: divide_le_eq_1)
qed

lemma chunkProgress_upper:
  assumes "int k \<le> t"
  shows "chunkProgress k t \<le> 95"
proof -
  have t0: "0 \<le> t" using assms by linarith
  have q: "(0 :: rat) \<le> of_nat k / of_int t" using t0 by simp
  have "js_div (of_nat k) (of_int t) \<le> fl 1"
    unfolding js_div_def using q quotient_le_one[OF assms] by (intro fl_mono)
  then have a: "js_div (of_nat k) (of_int t) \<le> 1" "0 \<le> js_div (of_nat k) (of_int t)"
    using q by (simp_all add: fl_values js_div_def fl_nonneg)
  have "js_mul (js_div (of_nat k) (of_int t)) 90 \<le> fl 90"
    unfolding js_mul_def using a by (intro fl_mono) simp_all
  then have b: "js_mul (js_div (of_nat k) (of_int t)) 90 \<le> 90"
               "0 \<le> js_mul (js_div (of_nat k) (of_int t)) 90"
    using a by (simp_all add: fl_values js_mul_def fl_nonneg)
  have "js_add 5 (js_mul (js_div (of_nat k) (of_int t)) 90) \<le> fl 95"
    unfolding js_add_def using b by (intro fl_mono) simp_all
  then have "chunkProgress k t \<le> Math_round 95"
    unfolding chunkProgress_def fl_values by (rule Math_round_mono)
  then show ?thesis by (simp only: round_values)
qed

lemma chunkProgress_zero: "chunkProgress 0 t = 5"
  by (simp add: chunkProgress_def js_div_def js_mul_def js_add_def fl_values round_values)



lemma ceil_step:
  assumes "0 < c" "k * c < n"
  shows "int (Suc k) \<le> Math_ceil (of_nat n / of_nat c)"
proof -
  have "(of_nat (k * c) :: rat) < of_nat n"
    using assms(2) by (simp only: of_nat_less_iff)
  then have "(of_nat k :: rat) < of_nat n / of_nat c"
    using assms(1) by (simp add: pos_less_divide_eq)
  also have "\<dots> \<le> of_int \<lceil>(of_nat n :: rat) / of_nat c\<rceil>"
    by (rule le_of_int_ceiling)
  finally have "int k < \<lceil>(of_nat n :: rat) / of_nat c\<rceil>"
    by (metis of_int_less_iff of_int_of_nat_eq)
  then show ?thesis
    by (simp add: Math_ceil_def)
qed

lemma ceil_exit:
  assumes "0 < c" "n \<le> k * c"
  shows "Math_ceil (of_nat n / of_nat c) \<le> int k"
proof -
  have "(of_nat n :: rat) \<le> of_nat (k * c)"
    using assms(2) by (simp only: of_nat_le_iff)
  then have "(of_nat n :: rat) / of_nat c \<le> of_nat k"
    using assms(1) by (simp add: pos_divide_le_eq)
  then show ?thesis
    by (simp add: Math_ceil_def ceiling_le_iff)
qed

lemma ceil_nonneg: "0 \<le> Math_ceil (of_nat n / of_nat c)"
proof -
  have "(0 :: rat) \<le> of_nat n / of_nat c" by simp
  then have "(0 :: int) \<le> \<lceil>(of_nat n :: rat) / of_nat c\<rceil>"
    by (metis ceiling_mono ceiling_zero)
  then show ?thesis by (simp add: Math_ceil_def)
qed

lemma expo_less:
  assumes "0 < x" "x < 2 powi k"
  shows "expo x < k"
proof (rule ccontr)
  assume "\<not> expo x < k"
  then have "(2 :: rat) powi k \<le> 2 powi expo x"
    by (intro power_int_increasing) simp_all
  with expo_bounds(1)[OF assms(1)] assms(2) show False by linarith
qed

lemma expo_ge:
  assumes "2 powi k \<le> x"
  shows "k \<le> expo x"
proof (rule ccontr)
  assume "\<not> k \<le> expo x"
  then have "expo x + 1 \<le> k" by simp
  then have "(2 :: rat) powi (expo x + 1) \<le> 2 powi k"
    by (intro power_int_increasing) simp_all
  moreover have "0 < x"
    using assms by (meson less_le_trans zero_less_numeral zero_less_power_int)
  ultimately show False
    using expo_bounds(2)[of x] assms by linarith
qed

lemma fl_int:
  assumes "0 < m" "m < 2 ^ 53"
  shows "fl (of_int m) = of_int m"
proof -
  let ?x = "rat_of_int m"
  have x: "0 < ?x" using assms(1) by simp
  have "?x < 2 powi 53"
    using assms(2) by (metis of_int_less_iff of_int_numeral of_int_power power_int_numeral)
  then have e1: "expo ?x < 53" using x by (intro expo_less)
  have "(2 :: rat) powi 0 \<le> ?x"
    using assms(1) by simp
  then have e0: "0 \<le> expo ?x" by (rule expo_ge)
  define s where "s = nat (52 - expo ?x)"
  have u: "(2 :: rat) powi (expo ?x - 52) = 1 / 2 ^ s"
  proof -
    have "expo ?x - 52 = - int s" using e1 by (simp add: s_def)
    then show ?thesis by (simp add: power_int_minus_divide)
  qed
  have "?x / 2 powi (expo ?x - 52) = of_int (m * 2 ^ s)"
    unfolding u by simp
  then have "rne (?x / 2 powi (expo ?x - 52)) = m * 2 ^ s"
    by (simp only: rne_int)
  then show ?thesis
    unfolding fl_pos[OF x] u by simp
qed

lemma ceil_of_double:
  assumes c: "0 < c" and n: "n < 2 ^ 53"
  shows "\<lceil>fl (rat_of_nat n / rat_of_nat c)\<rceil> = \<lceil>rat_of_nat n / rat_of_nat c\<rceil>"
proof (cases "n = 0")
  case True
  then show ?thesis by simp
next
  case False
  let ?q = "rat_of_nat n / rat_of_nat c"
  let ?m = "\<lceil>?q\<rceil>"
  have cpos: "(0 :: rat) < of_nat c" using c by simp
  have q: "0 < ?q" using False c by simp
  have qn: "?q \<le> of_nat n"
  proof -
    have "(1 :: rat) \<le> of_nat c" using c by simp
    then have "rat_of_nat n / rat_of_nat c \<le> rat_of_nat n / 1"
      by (intro divide_left_mono) simp_all
    then show ?thesis by simp
  qed
  have m1: "0 < ?m" using q by simp
  have "?m \<le> int n"
    using qn by (simp add: ceiling_le_iff)
  moreover have "int n < 2 ^ 53"
    using n by (metis of_nat_less_iff of_nat_numeral of_nat_power)
  ultimately have m2: "?m < 2 ^ 53"
    by linarith
  have "fl ?q \<le> fl (of_int ?m)"
    using q by (intro fl_mono) simp_all
  then have up: "fl ?q \<le> of_int ?m"
    by (simp only: fl_int[OF m1 m2])
  have "(of_int ?m - 1) * rat_of_nat c < rat_of_nat n"
  proof -
    have "of_int ?m - 1 < ?q" by linarith
    then show ?thesis using cpos by (simp add: pos_less_divide_eq)
  qed
  then have "rat_of_int ((?m - 1) * int c) < rat_of_int (int n)"
    by simp
  then have "(?m - 1) * int c < int n"
    by (simp only: of_int_less_iff)
  then have "(?m - 1) * int c + 1 \<le> int n" by simp
  then have "rat_of_int ((?m - 1) * int c + 1) \<le> rat_of_int (int n)"
    by (simp only: of_int_le_iff)
  then have "(of_int ?m - 1) * rat_of_nat c + 1 \<le> rat_of_nat n"
    by simp
  then have "((of_int ?m - 1) * rat_of_nat c + 1) / rat_of_nat c \<le> ?q"
    using cpos by (intro divide_right_mono) simp_all
  then have gap: "of_int ?m - 1 + 1 / rat_of_nat c \<le> ?q"
    using cpos by (simp add: add_divide_distrib)
  have "?q / 2 ^ 53 < 1 / rat_of_nat c"
  proof -
    have "rat_of_nat n < 2 ^ 53"
      using n by (metis of_nat_less_iff of_nat_numeral of_nat_power)
    then have "rat_of_nat n / 2 ^ 53 < 1" by simp
    then have "rat_of_nat n / 2 ^ 53 / rat_of_nat c < 1 / rat_of_nat c"
      using cpos by (intro divide_strict_right_mono)
    then show ?thesis by (simp add: field_simps)
  qed
  moreover have "\<bar>fl ?q - ?q\<bar> \<le> ?q / 2 ^ 53"
    using q by (intro fl_err) simp
  ultimately have "of_int ?m - 1 < fl ?q"
    using gap unfolding abs_le_iff by linarith
  then have "?m - 1 < \<lceil>fl ?q\<rceil>"
    by (simp add: less_ceiling_iff)
  moreover have "\<lceil>fl ?q\<rceil> \<le> ?m"
    using up by (simp add: ceiling_le_iff)
  ultimately show ?thesis by linarith
qed

lemma Math_ceil_double:
  assumes "0 < c" and "n < 2 ^ 53"
  shows "Math_ceil (js_div (of_nat n) (of_nat c)) = Math_ceil (of_nat n / of_nat c)"
  unfolding Math_ceil_def js_div_def using assms by (rule ceil_of_double)

section \<open>Traces\<close>

lemma updates_append [simp]: "updates (a @ b) = updates a @ updates b"
  by (induction a rule: updates.induct) simp_all

lemma skeleton_append [simp]: "skeleton d (a @ b) = skeleton d a @ skeleton d b"
  by (induction d a rule: skeleton.induct) simp_all

lemma responses_append [simp]: "responses (a @ b) = responses a @ responses b"
  by (induction a rule: responses.induct) simp_all

lemma chunk_phase_ok_append:
  "chunk_phase_ok P k (us @ vs) \<longleftrightarrow>
     chunk_phase_ok P k us
     \<and> chunk_phase_ok P (k + length (filter (\<lambda>u. endsChunk (payload u)) us)) vs"
  by (induction P k us rule: chunk_phase_ok.induct) auto


lemma pauses_skeleton:
  "length (filter (\<lambda>e. e = Delay d) tr) = length (filter (\<lambda>m. m = Pause) (skeleton d tr))"
  by (induction d tr rule: skeleton.induct) auto

lemma pauses_groups: "length (filter (\<lambda>m. m = Pause) (groups_with_pauses n)) = n - 1"
proof -
  have "length (filter (\<lambda>m. m = Pause) (concat (replicate j [GroupStart, GroupDone, Pause]))) = j" for j
    by (induction j) simp_all
  then show ?thesis by (simp add: groups_with_pauses_def)
qed

lemma processChunkNodes_quiet:
  "updates (snd (processChunkNodes env ns)) = [] \<and> skeleton 50 (snd (processChunkNodes env ns)) = []
   \<and> responses (snd (processChunkNodes env ns)) = []"
  by (induction ns) (auto simp: processTextNode_def split: prod.splits option.splits)

lemma starts_not_ends: "startsChunk pl \<Longrightarrow> \<not> endsChunk pl"
  by (cases pl rule: startsChunk.cases) simp_all

lemma ends_not_starts: "endsChunk pl \<Longrightarrow> \<not> startsChunk pl"
  using starts_not_ends by blast

lemma replicate_marks:
  "0 < k \<Longrightarrow> concat (replicate (k - 1) [GroupStart, GroupDone, Pause]) @ [GroupStart, GroupDone, Pause]
     = concat (replicate k [GroupStart, GroupDone, Pause])"
proof -
  assume "0 < k"
  then obtain j where "k = Suc j" by (cases k) auto
  then show ?thesis
    by (simp add: replicate_append_same[symmetric] del: replicate_Suc replicate.simps)
       (metis append.right_neutral concat.simps(1) concat.simps(2) concat_append replicate_Suc replicate_append_same)
qed

lemma trace_inv_step:
  assumes inv: "trace_inv d t n k p paused tr"
    and paused: "k = 0 \<or> paused"
    and t: "int (Suc k) \<le> t"
    and w: "updates w = []" "skeleton d w = []" "responses w = []"
    and b: "status b = InProgress" "progress b = chunkProgress k t" "startsChunk (payload b)"
           "totalItems b = n"
    and a: "status a = InProgress" "progress a = chunkProgress (Suc k) t" "endsChunk (payload a)"
           "totalItems a = n" "processedItems a = p'"
  shows "trace_inv d t n (Suc k) p' paused'
           (tr @ [PostMessage (CommandProgress b)] @ w @ [PostMessage (CommandProgress a)]
               @ (if paused' then [Delay d] else []))"
proof -
  let ?us = "updates tr"
  let ?tr' = "tr @ [PostMessage (CommandProgress b)] @ w @ [PostMessage (CommandProgress a)]
               @ (if paused' then [Delay d] else [])"
  have us': "updates ?tr' = ?us @ [b, a]"
    using w by simp
  have t0: "0 \<le> t" using t by linarith
  have ba: "progress b \<le> progress a"
    using b a t0 by (simp add: chunkProgress_mono)
  have mono: "chunkProgress k t \<le> chunkProgress (Suc k) t"
    using t0 by (simp add: chunkProgress_mono)
  have bnd: "5 \<le> progress b" "progress b \<le> 95" "5 \<le> progress a" "progress a \<le> 95"
    using b a t t0 by (simp_all add: chunkProgress_lower chunkProgress_upper)
  have len: "2 \<le> length ?us" using inv by (simp add: trace_inv_def)
  have c1: "sorted (map progress (updates ?tr'))"
    using inv ba b unfolding us' trace_inv_def by (auto simp: sorted_append)
  have c2: "\<forall>u \<in> set (updates ?tr'). progress u \<le> chunkProgress (Suc k) t \<and> status u \<noteq> Completed
          \<and> status u \<noteq> Error"
    using inv mono b a unfolding us' trace_inv_def by auto
  have c3: "length (filter (\<lambda>u. status u = InProgress) (updates ?tr')) = 1 + 2 * Suc k"
    using inv b a unfolding us' trace_inv_def by simp
  have c4: "2 \<le> length (updates ?tr')" using len unfolding us' by simp
  have n0: "updates ?tr' ! 0 = ?us ! 0" and n1: "updates ?tr' ! 1 = ?us ! 1"
    using len unfolding us' by (auto simp: nth_append)
  have c5: "status (updates ?tr' ! 0) = Started" "progress (updates ?tr' ! 0) = 0"
    "status (updates ?tr' ! 1) = InProgress" "progress (updates ?tr' ! 1) = 5"
    "processedItems (updates ?tr' ! 1) = 0"
    "\<not> startsChunk (payload (updates ?tr' ! 1))" "\<not> endsChunk (payload (updates ?tr' ! 1))"
    using inv unfolding n0 n1 trace_inv_def by blast+
  have c6: "\<forall>u \<in> set (drop 2 (updates ?tr')). status u = InProgress
          \<and> (startsChunk (payload u) \<or> endsChunk (payload u))
          \<and> 5 \<le> progress u \<and> progress u \<le> 95"
    using inv len b a bnd unfolding us' trace_inv_def by auto
  have c7: "\<forall>u \<in> set (drop 1 (updates ?tr')). totalItems u = n"
    using inv len b a unfolding us' trace_inv_def by auto
  have c8: "status (last (updates ?tr')) = InProgress" "processedItems (last (updates ?tr')) = p'"
    using a unfolding us' by simp_all
  have sk: "skeleton d ?tr' = skeleton d tr @ [GroupStart, GroupDone] @ (if paused' then [Pause] else [])"
    using w b a by (simp add: starts_not_ends ends_not_starts)
  have c9': "skeleton d ?tr' = concat (replicate (Suc k - 1) [GroupStart, GroupDone, Pause])
             @ [GroupStart, GroupDone] @ (if paused' then [Pause] else [])"
  proof (cases "k = 0")
    case True
    then show ?thesis using inv sk by (simp add: trace_inv_def)
  next
    case False
    with paused have "paused" by simp
    with False inv have "skeleton d tr = concat (replicate (k - 1) [GroupStart, GroupDone, Pause])
             @ [GroupStart, GroupDone, Pause]"
      by (simp add: trace_inv_def)
    also have "\<dots> = concat (replicate k [GroupStart, GroupDone, Pause])"
      using False by (intro replicate_marks) simp
    finally have "skeleton d tr = concat (replicate (Suc k - 1) [GroupStart, GroupDone, Pause])"
      by simp
    then show ?thesis by (simp only: sk append_assoc)
  qed
  have c9: "skeleton d ?tr' =
       (if Suc k = 0 then []
        else concat (replicate (Suc k - 1) [GroupStart, GroupDone, Pause])
             @ [GroupStart, GroupDone] @ (if paused' then [Pause] else []))"
    using c9' by simp
  have "reported t k (progress b)" "reported t (Suc k) (progress a)"
    using b a t unfolding reported_def by simp_all
  then have c10: "chunk_phase_ok (reported t) 0 (updates ?tr')"
    using inv b a unfolding us' trace_inv_def
    by (simp add: chunk_phase_ok_append starts_not_ends)
  have c11: "length (filter (\<lambda>u. endsChunk (payload u)) (updates ?tr')) = Suc k"
    using inv b a unfolding us' trace_inv_def by (simp add: starts_not_ends)
  have c12: "responses ?tr' = []"
    using inv w by (simp add: trace_inv_def)
  show ?thesis
    unfolding trace_inv_def
    by (intro conjI) (fact c1 c2 c3 c4 c5 c6 c7 c8 c9 c10 c11 c12)+
qed

section \<open>The chunk loop of scanTextNodes\<close>

lemma progressUpdate_fields [simp]:
  "status (progressUpdate cid ct st pr n m pl) = st"
  "progress (progressUpdate cid ct st pr n m pl) = pr"
  "totalItems (progressUpdate cid ct st pr n m pl) = n"
  "processedItems (progressUpdate cid ct st pr n m pl) = m"
  "payload (progressUpdate cid ct st pr n m pl) = pl"
  "commandId (progressUpdate cid ct st pr n m pl) = cid"
  by (simp_all add: progressUpdate_def Let_def)

lemma slice_length: "length (slice xs i j) = min (j - i) (length xs - i)"
  by (simp add: slice_def)

lemma slice_subset: "set (slice xs i j) \<subseteq> set xs"
  unfolding slice_def by (meson order_trans set_drop_subset set_take_subset)

lemma processTextNode_id:
  "processTextNode env n path depth = (Some ti, w) \<Longrightarrow> ti_id ti = nid n"
  by (auto simp: processTextNode_def safeTextNode_def split: if_splits)

lemma processChunkNodes_ids:
  "ti_id ` set (fst (processChunkNodes env ns)) \<subseteq> (nid \<circ> ni_node) ` set ns"
proof (induction ns)
  case Nil
  show ?case by simp
next
  case (Cons x xs)
  obtain fr wr where r: "processChunkNodes env xs = (fr, wr)"
    by (cases "processChunkNodes env xs")
  obtain o1 w1 where o: "processTextNode env (ni_node x) (ni_parentPath x) (ni_depth x) = (o1, w1)"
    by (cases "processTextNode env (ni_node x) (ni_parentPath x) (ni_depth x)")
  have "ti_id ` set fr \<subseteq> (nid \<circ> ni_node) ` set xs"
    using Cons.IH r by simp
  moreover have "o1 = Some ti \<Longrightarrow> ti_id ti = nid (ni_node x)" for ti
    using o processTextNode_id by blast
  ultimately show ?case
    using r o by (cases o1) auto
qed

lemma scanLoop_total:
  assumes c: "0 < c" and init: "I s"
    and step: "\<And>s. I s \<Longrightarrow> sc_i s < n \<Longrightarrow> I (scanChunk env cid ns n c t s)"
  shows "\<exists>s'. scanLoop env cid ns n c t s = Some s' \<and> I s' \<and> n \<le> sc_i s'"
  using init
proof (induction "n - sc_i s" arbitrary: s rule: less_induct)
  case less
  show ?case
  proof (cases "sc_i s < n")
    case True
    let ?s = "scanChunk env cid ns n c t s"
    have adv: "sc_i ?s = sc_i s + c"
      by (simp add: scanChunk_def Let_def split: prod.splits)
    have "n - sc_i ?s < n - sc_i s"
      using True c adv by simp
    moreover have "I ?s"
      using step less.prems True by blast
    ultimately obtain s' where "scanLoop env cid ns n c t ?s = Some s' \<and> I s' \<and> n \<le> sc_i s'"
      using less.hyps by blast
    moreover have "scanLoop env cid ns n c t s = scanLoop env cid ns n c t ?s"
      using True by (subst scanLoop.simps) simp
    ultimately show ?thesis by simp
  next
    case False
    then have "scanLoop env cid ns n c t s = Some s"
      by (subst scanLoop.simps) simp
    then show ?thesis using less.prems False by simp
  qed
qed

lemma scan_inv_step:
  assumes inv: "scan_inv ns c t s" and lt: "sc_i s < length ns" and c: "0 < c"
    and t: "t = Math_ceil (of_nat (length ns) / of_nat c)"
  shows "scan_inv ns c t (scanChunk env cid ns (length ns) c t s)"
proof -
  let ?n = "length ns"
  let ?k = "sc_chunksProcessed s"
  let ?chunk = "slice ns (sc_i s) (min (sc_i s + c) ?n)"
  let ?found = "fst (processChunkNodes env ?chunk)"
  let ?w = "snd (processChunkNodes env ?chunk)"
  let ?p' = "sc_processedNodes s + length ?chunk"
  let ?b = "progressUpdate cid ''scan_text_nodes'' InProgress (chunkProgress ?k t) ?n
              (sc_processedNodes s)
              (Some (PScanChunkStart (?k + 1) t (length (sc_allTextNodes s))))"
  let ?a = "progressUpdate cid ''scan_text_nodes'' InProgress (chunkProgress (?k + 1) t) ?n ?p'
              (Some (PScanChunkDone (?k + 1) t ?p' (length (sc_allTextNodes s @ ?found)) ?found))"
  let ?s = "scanChunk env cid ns ?n c t s"
  have i: "sc_i s = ?k * c" and p: "sc_processedNodes s = min (sc_i s) ?n"
    and tr: "trace_inv 50 t ?n ?k (sc_processedNodes s) (sc_i s < ?n) (sc_trace s)"
    and ids: "ti_id ` set (sc_allTextNodes s) \<subseteq> (nid \<circ> ni_node) ` set ns"
    using inv unfolding scan_inv_def by blast+
  have f1: "sc_i ?s = sc_i s + c" "sc_chunksProcessed ?s = Suc ?k"
    "sc_processedNodes ?s = ?p'" "sc_allTextNodes ?s = sc_allTextNodes s @ ?found"
    by (simp_all add: scanChunk_def Let_def split: prod.splits)
  have f2: "sc_trace ?s = sc_trace s @ [PostMessage (CommandProgress ?b)] @ ?w
              @ [PostMessage (CommandProgress ?a)]
              @ (if sc_i s + c < ?n then [Delay 50] else [])"
    by (simp add: scanChunk_def Let_def sendProgressUpdate_def split: prod.splits)
  have k: "int (Suc ?k) \<le> t"
    using ceil_step[OF c, of ?k ?n] lt i t by simp
  have p': "?p' = min (sc_i s + c) ?n"
    using lt p by (simp add: slice_length)
  have "trace_inv 50 t ?n (Suc ?k) ?p' (sc_i s + c < ?n)
          (sc_trace s @ [PostMessage (CommandProgress ?b)] @ ?w
              @ [PostMessage (CommandProgress ?a)]
              @ (if sc_i s + c < ?n then [Delay 50] else []))"
  proof (rule trace_inv_step[where paused = "sc_i s < ?n" and p = "sc_processedNodes s"])
    show "trace_inv 50 t ?n ?k (sc_processedNodes s) (sc_i s < ?n) (sc_trace s)"
      by (rule tr)
    show "?k = 0 \<or> sc_i s < ?n"
      using lt by simp
    show "int (Suc ?k) \<le> t"
      by (rule k)
  qed (use processChunkNodes_quiet[of env ?chunk] in simp_all)
  moreover have "ti_id ` set (sc_allTextNodes ?s) \<subseteq> (nid \<circ> ni_node) ` set ns"
    using ids processChunkNodes_ids[of env ?chunk] slice_subset[of ns "sc_i s" "min (sc_i s + c) ?n"]
    unfolding f1 by (simp add: image_Un) blast
  ultimately show ?thesis
    unfolding scan_inv_def f1 f2 using i k p' by simp
qed

lemma trace_inv_init:
  assumes "0 \<le> t"
    and "status u0 = Started" "progress u0 = 0"
    and "status u1 = InProgress" "progress u1 = 5" "processedItems u1 = 0" "totalItems u1 = n"
    and "\<not> startsChunk (payload u0)" "\<not> endsChunk (payload u0)"
    and "\<not> startsChunk (payload u1)" "\<not> endsChunk (payload u1)"
  shows "trace_inv d t n 0 0 paused
           [PostMessage (CommandProgress u0), PostMessage (CommandProgress u1)]"
  using assms chunkProgress_zero[of t]
  unfolding trace_inv_def by simp

lemma scan_loop_result:
  assumes c: "0 < c" and t: "t = Math_ceil (of_nat (length ns) / of_nat c)"
    and s0: "s0 = \<lparr> sc_i = 0, sc_allTextNodes = [], sc_processedNodes = 0,
                    sc_chunksProcessed = 0,
                    sc_trace = [sendProgressUpdate cid ''scan_text_nodes'' Started 0 0 0
                                  (Some (PChunkSize c)),
                                sendProgressUpdate cid ''scan_text_nodes'' InProgress 5
                                  (length ns) 0 (Some (PScanPlan (length ns) t c))] \<rparr>"
  shows "\<exists>s. scanLoop env cid ns (length ns) c t s0 = Some s
           \<and> sc_chunksProcessed s = nat t \<and> sc_processedNodes s = length ns
           \<and> ti_id ` set (sc_allTextNodes s) \<subseteq> (nid \<circ> ni_node) ` set ns
           \<and> trace_inv 50 t (length ns) (nat t) (length ns) False (sc_trace s)"
proof -
  have t0: "0 \<le> t" unfolding t by (rule ceil_nonneg)
  have "trace_inv 50 t (length ns) 0 0 (0 < length ns) (sc_trace s0)"
    unfolding s0 sendProgressUpdate_def using t0
    by (simp add: trace_inv_init)
  then have init: "scan_inv ns c t s0"
    unfolding scan_inv_def using t0 by (simp add: s0)
  obtain s where run: "scanLoop env cid ns (length ns) c t s0 = Some s"
    and inv: "scan_inv ns c t s" and ex: "length ns \<le> sc_i s"
    using scanLoop_total[where I = "scan_inv ns c t", OF c init] scan_inv_step[OF _ _ c t]
    by blast
  let ?k = "sc_chunksProcessed s"
  have i: "sc_i s = ?k * c" and k: "int ?k \<le> t"
    and p: "sc_processedNodes s = min (sc_i s) (length ns)"
    and ids: "ti_id ` set (sc_allTextNodes s) \<subseteq> (nid \<circ> ni_node) ` set ns"
    and tr: "trace_inv 50 t (length ns) ?k (sc_processedNodes s) (sc_i s < length ns) (sc_trace s)"
    using inv unfolding scan_inv_def by blast+
  have "t \<le> int ?k"
    using ceil_exit[OF c, of "length ns" ?k] ex i t by simp
  with k have kt: "?k = nat t" by simp
  have pn: "sc_processedNodes s = length ns" using p ex by simp
  have "\<not> sc_i s < length ns" using ex by simp
  with tr have "trace_inv 50 t (length ns) (nat t) (length ns) False (sc_trace s)"
    unfolding kt pn by simp
  with run kt pn ids show ?thesis by blast
qed

section \<open>The chunk loop of setMultipleTextContents\<close>

lemma mkChunks_length_iff: "k < length (mkChunks xs i) \<longleftrightarrow> i + k * CHUNK_SIZE < length xs"
proof (induction xs i arbitrary: k rule: mkChunks.induct)
  case (1 xs i)
  show ?case
  proof (cases "i < length xs")
    case True
    then have eq: "mkChunks xs i = slice xs i (i + CHUNK_SIZE) # mkChunks xs (i + CHUNK_SIZE)"
      by (subst mkChunks.simps) simp
    show ?thesis
    proof (cases k)
      case 0
      then show ?thesis using True eq by simp
    next
      case (Suc j)
      then show ?thesis using True eq "1.IH"[OF True, of j] by (simp add: ac_simps)
    qed
  next
    case False
    then have "mkChunks xs i = []"
      by (subst mkChunks.simps) simp
    then show ?thesis using False by simp
  qed
qed

lemma mkChunks_nth:
  "k < length (mkChunks xs i) \<Longrightarrow>
     mkChunks xs i ! k = slice xs (i + k * CHUNK_SIZE) (i + k * CHUNK_SIZE + CHUNK_SIZE)"
proof (induction xs i arbitrary: k rule: mkChunks.induct)
  case (1 xs i)
  show ?case
  proof (cases "i < length xs")
    case True
    then have eq: "mkChunks xs i = slice xs i (i + CHUNK_SIZE) # mkChunks xs (i + CHUNK_SIZE)"
      by (subst mkChunks.simps) simp
    show ?thesis
    proof (cases k)
      case 0
      then show ?thesis using eq by simp
    next
      case (Suc j)
      then have "j < length (mkChunks xs (i + CHUNK_SIZE))"
        using "1.prems" eq by simp
      then show ?thesis using Suc eq "1.IH"[OF True, of j] by (simp add: ac_simps)
    qed
  next
    case False
    then have "mkChunks xs i = []"
      by (subst mkChunks.simps) simp
    then show ?thesis using "1.prems" by simp
  qed
qed


lemma tally_results:
  "st_results (tally rs s) = st_results s @ rs
   \<and> st_successCount (tally rs s) = st_successCount s + length (filter success rs)
   \<and> st_failureCount (tally rs s) = st_failureCount s + length (filter (\<lambda>r. \<not> success r) rs)
   \<and> st_trace (tally rs s) = st_trace s
   \<and> st_texts (tally rs s) = st_texts s"
  by (induction rs arbitrary: s) simp_all

lemma applyReplacement_quiet:
  "updates (o_work (applyReplacement env doc r)) = []
   \<and> skeleton 1000 (o_work (applyReplacement env doc r)) = []
   \<and> responses (o_work (applyReplacement env doc r)) = []"
  by (simp add: applyReplacement_def Let_def split: option.splits sum.splits)

lemma chunk_work_quiet:
  "updates (concat (map o_work (map (applyReplacement env doc) rs))) = []
   \<and> skeleton 1000 (concat (map o_work (map (applyReplacement env doc) rs))) = []
   \<and> responses (concat (map o_work (map (applyReplacement env doc) rs))) = []"
  by (induction rs) (simp_all add: applyReplacement_quiet)

lemma applyReplacement_texts:
  "forgetOriginal (o_result (applyReplacement env doc r)) = forgetOriginal (alone env r)"
  by (simp add: alone_def applyReplacement_def Let_def split: option.splits sum.splits)

lemma forgetOriginal_success [simp]: "success (forgetOriginal e) = success e"
  by (cases e) simp_all

lemma forgetOriginal_nodeId [simp]: "result_nodeId (forgetOriginal e) = result_nodeId e"
  by (cases e) simp_all

lemma entryObjects_append:
  "entryObjects (a @ b) =
     (case entryObjects a of
        Inl v \<Rightarrow> Inl v
      | Inr rs \<Rightarrow> (case entryObjects b of Inl v \<Rightarrow> Inl v | Inr rs' \<Rightarrow> Inr (rs @ rs')))"
  by (induction a rule: entryObjects.induct) (auto split: sum.splits)

lemma entryObjects_Entry [simp]: "entryObjects (map Entry rs) = Inr rs"
  by (induction rs) simp_all

lemma entryObjects_Inl: "entryObjects es = Inl v \<Longrightarrow> NullEntry v \<in> set es"
  by (induction es arbitrary: v rule: entryObjects.induct) (auto split: sum.splits)

lemma entryObjects_length: "entryObjects es = Inr rs \<Longrightarrow> length rs = length es"
  by (induction es arbitrary: rs rule: entryObjects.induct) (auto split: sum.splits)

lemma processChunks_rule:
  assumes "I k s"
    and step: "\<And>k s. I k s \<Longrightarrow> k < length chunks \<Longrightarrow>
             (\<exists>x. processChunk env cid n chunks k s = Inl x \<and> Q x)
             \<or> (\<exists>s'. processChunk env cid n chunks k s = Inr s' \<and> I (Suc k) s')"
    and "k \<le> length chunks"
  shows "(\<exists>x. processChunks env cid n chunks k s = Inl x \<and> Q x)
         \<or> (\<exists>s'. processChunks env cid n chunks k s = Inr s' \<and> I (length chunks) s')"
  using assms(1,3)
proof (induction "length chunks - k" arbitrary: k s)
  case 0
  then have "k = length chunks" by simp
  then have "processChunks env cid n chunks k s = Inr s"
    by (subst processChunks.simps) simp
  then show ?case using "0.prems" \<open>k = length chunks\<close> by simp
next
  case (Suc m)
  then have lt: "k < length chunks" by simp
  from step[OF Suc.prems(1) lt] show ?case
  proof
    assume "\<exists>x. processChunk env cid n chunks k s = Inl x \<and> Q x"
    then obtain x where x: "processChunk env cid n chunks k s = Inl x" "Q x" by blast
    have "processChunks env cid n chunks k s = Inl x"
      using lt x(1) by (subst processChunks.simps) simp
    with x(2) show ?thesis by blast
  next
    assume "\<exists>s'. processChunk env cid n chunks k s = Inr s' \<and> I (Suc k) s'"
    then obtain s' where s': "processChunk env cid n chunks k s = Inr s'" "I (Suc k) s'" by blast
    have eq: "processChunks env cid n chunks k s = processChunks env cid n chunks (Suc k) s'"
      using lt s'(1) by (subst processChunks.simps) simp
    have "m = length chunks - Suc k" using Suc.hyps(2) by simp
    from Suc.hyps(1)[OF this s'(2)] lt show ?thesis
      unfolding eq by simp
  qed
qed

lemma trace_inv_abort:
  assumes inv: "trace_inv d t n k p paused tr"
    and b: "status b = InProgress" "progress b = chunkProgress k t"
  shows "aborted_run (tr @ [PostMessage (CommandProgress b)])"
  using inv b unfolding trace_inv_def aborted_run_def
  by (auto simp: sorted_append)

lemma set_inv_step:
  assumes inv: "set_inv env xs t k s" and lt: "k < t"
    and ch: "chunks = mkChunks xs 0" and t: "t = length chunks"
  shows "(\<exists>x. processChunk env cid (length xs) chunks k s = Inl x
              \<and> (\<exists>v. NullEntry v \<in> set xs) \<and> aborted_run (fst x))
         \<or> (\<exists>s'. processChunk env cid (length xs) chunks k s = Inr s'
              \<and> set_inv env xs t (Suc k) s')"
proof -
  let ?f = "\<lambda>r. forgetOriginal (alone env r)"
  let ?chunk = "chunks ! k"
  let ?b = "progressUpdate cid ''set_multiple_text_contents'' InProgress
              (chunkProgress k (int (length chunks))) (length xs)
              (st_successCount s + st_failureCount s)
              (Some (PSetChunkStart (k + 1) (length chunks) (st_successCount s)
                       (st_failureCount s)))"
  obtain rs0 where pre: "entryObjects (take (k * CHUNK_SIZE) xs) = Inr rs0"
    and res: "map forgetOriginal (st_results s) = map ?f rs0"
    using inv unfolding set_inv_def by blast
  have sc: "st_successCount s = length (filter success (st_results s))"
    and fc: "st_failureCount s = length (filter (\<lambda>r. \<not> success r) (st_results s))"
    and tr: "trace_inv 1000 (int t) (length xs) k (length (st_results s)) (k < t) (st_trace s)"
    using inv unfolding set_inv_def by blast+
  have chunk: "?chunk = take CHUNK_SIZE (drop (k * CHUNK_SIZE) xs)"
    using mkChunks_nth[of k xs 0] lt ch t by (simp add: slice_def)
  show ?thesis
  proof (cases "entryObjects ?chunk")
    case (Inl v)
    have eq: "processChunk env cid (length xs) chunks k s
                = Inl (st_trace s @ [PostMessage (CommandProgress ?b)], typeError v ''nodeId'')"
      by (simp add: processChunk_def Let_def Inl sendProgressUpdate_def)
    have "NullEntry v \<in> set ?chunk"
      using Inl by (rule entryObjects_Inl)
    then have "NullEntry v \<in> set xs"
      unfolding chunk by (meson in_set_dropD in_set_takeD)
    moreover have "aborted_run (st_trace s @ [PostMessage (CommandProgress ?b)])"
      using tr by (rule trace_inv_abort) (simp_all add: t)
    ultimately show ?thesis
      unfolding eq by auto
  next
    case (Inr rs1)
    let ?out = "map (applyReplacement env (st_texts s)) rs1"
    let ?rs = "map o_result ?out"
    let ?w = "concat (map o_work ?out)"
    let ?s' = "tally ?rs s"
    let ?a = "progressUpdate cid ''set_multiple_text_contents'' InProgress
              (chunkProgress (k + 1) (int (length chunks))) (length xs)
              (st_successCount ?s' + st_failureCount ?s')
              (Some (PSetChunkDone (k + 1) (length chunks) (st_successCount ?s')
                       (st_failureCount ?s') ?rs))"
    let ?s = "?s'\<lparr> st_trace := st_trace s @ [PostMessage (CommandProgress ?b)] @ ?w
                           @ [PostMessage (CommandProgress ?a)]
                           @ (if Suc k < t then [Delay 1000] else []),
                    st_texts := foldl writeText (st_texts s) (map o_write ?out) \<rparr>"
    have pause: "(k < length chunks - Suc 0) = (Suc k < t)"
      using t by auto
    have eq: "processChunk env cid (length xs) chunks k s = Inr ?s"
      unfolding processChunk_def Let_def
      by (simp add: Inr sendProgressUpdate_def pause del: map_map)
    have f1: "st_results ?s = st_results s @ ?rs"
      "st_successCount ?s = st_successCount s + length (filter success ?rs)"
      "st_failureCount ?s = st_failureCount s + length (filter (\<lambda>r. \<not> success r) ?rs)"
      by (simp_all add: tally_results)
    have f2: "st_trace ?s = st_trace s @ [PostMessage (CommandProgress ?b)] @ ?w
              @ [PostMessage (CommandProgress ?a)]
              @ (if Suc k < t then [Delay 1000] else [])"
      by simp
    have "take (k * CHUNK_SIZE + CHUNK_SIZE) xs
            = take (k * CHUNK_SIZE) xs @ take CHUNK_SIZE (drop (k * CHUNK_SIZE) xs)"
      by (rule take_add)
    moreover have "Suc k * CHUNK_SIZE = k * CHUNK_SIZE + CHUNK_SIZE"
      by simp
    ultimately have "take (Suc k * CHUNK_SIZE) xs = take (k * CHUNK_SIZE) xs @ ?chunk"
      unfolding chunk by (simp only:)
    then have g0: "entryObjects (take (Suc k * CHUNK_SIZE) xs) = Inr (rs0 @ rs1)"
      by (simp add: entryObjects_append pre Inr)
    have "map forgetOriginal ?rs = map ?f rs1"
      by (simp add: applyReplacement_texts)
    then have g1: "map forgetOriginal (st_results ?s) = map ?f (rs0 @ rs1)"
      unfolding f1 using res by simp
    have cnt: "st_successCount ?s' + st_failureCount ?s' = length (st_results s @ ?rs)"
      using sc fc sum_length_filter_compl[of success "st_results s"]
        sum_length_filter_compl[of success ?rs]
      by (simp add: tally_results)
    have "trace_inv 1000 (int t) (length xs) (Suc k) (length (st_results s @ ?rs)) (Suc k < t)
          (st_trace s @ [PostMessage (CommandProgress ?b)] @ ?w
              @ [PostMessage (CommandProgress ?a)]
              @ (if Suc k < t then [Delay 1000] else []))"
    proof (rule trace_inv_step[where paused = "k < t" and p = "length (st_results s)"])
      show "trace_inv 1000 (int t) (length xs) k (length (st_results s)) (k < t) (st_trace s)"
        by (rule tr)
      show "k = 0 \<or> k < t" using lt by simp
      show "int (Suc k) \<le> int t" using lt by simp
      show "processedItems ?a = length (st_results s @ ?rs)"
        using cnt by simp
    qed (use chunk_work_quiet[of env "st_texts s" rs1] t in simp_all)
    then have g4: "trace_inv 1000 (int t) (length xs) (Suc k) (length (st_results ?s)) (Suc k < t)
          (st_trace ?s)"
      by (simp only: f1 f2)
    have g2: "st_successCount ?s = length (filter success (st_results ?s))"
    proof -
      have "st_successCount ?s = st_successCount s + length (filter success ?rs)"
        by (rule f1(2))
      also have "\<dots> = length (filter success (st_results s @ ?rs))"
        using sc by simp
      also have "\<dots> = length (filter success (st_results ?s))"
        by (simp only: f1(1))
      finally show ?thesis .
    qed
    have g3: "st_failureCount ?s = length (filter (\<lambda>r. \<not> success r) (st_results ?s))"
    proof -
      have "st_failureCount ?s = st_failureCount s + length (filter (\<lambda>r. \<not> success r) ?rs)"
        by (rule f1(3))
      also have "\<dots> = length (filter (\<lambda>r. \<not> success r) (st_results s @ ?rs))"
        using fc by simp
      also have "\<dots> = length (filter (\<lambda>r. \<not> success r) (st_results ?s))"
        by (simp only: f1(1))
      finally show ?thesis .
    qed
    have "set_inv env xs t (Suc k) ?s"
      unfolding set_inv_def
      by (intro conjI exI[of _ "rs0 @ rs1"]) (fact g0 g1 g2 g3 g4)+
    then show ?thesis
      unfolding eq by simp
  qed
qed

lemma set_loop_result:
  assumes ch: "chunks = mkChunks xs 0"
    and s0: "s0 = \<lparr> st_results = [], st_successCount = 0, st_failureCount = 0,
                    st_trace = [sendProgressUpdate cid ''set_multiple_text_contents'' Started 0
                                  (length xs) 0 (Some (PTotal (length xs))),
                                sendProgressUpdate cid ''set_multiple_text_contents'' InProgress 5
                                  (length xs) 0
                                  (Some (PSetPlan (length xs) (length chunks) CHUNK_SIZE))],
                    st_texts = Map.empty \<rparr>"
  shows "(\<exists>x. processChunks env cid (length xs) chunks 0 s0 = Inl x
              \<and> (\<exists>v. NullEntry v \<in> set xs) \<and> aborted_run (fst x))
         \<or> (\<exists>s. processChunks env cid (length xs) chunks 0 s0 = Inr s
              \<and> set_inv env xs (length chunks) (length chunks) s)"
proof -
  let ?t = "length chunks"
  have "trace_inv 1000 (int ?t) (length xs) 0 0 (0 < ?t) (st_trace s0)"
    unfolding s0 sendProgressUpdate_def by (simp add: trace_inv_init)
  then have init: "set_inv env xs ?t 0 s0"
    unfolding set_inv_def by (simp add: s0)
  show ?thesis
  proof (rule processChunks_rule[where I = "set_inv env xs ?t"
          and Q = "\<lambda>x. (\<exists>v. NullEntry v \<in> set xs) \<and> aborted_run (fst x)", OF init])
    fix k s
    assume "set_inv env xs ?t k s" "k < length chunks"
    then show "(\<exists>x. processChunk env cid (length xs) chunks k s = Inl x
              \<and> (\<exists>v. NullEntry v \<in> set xs) \<and> aborted_run (fst x))
         \<or> (\<exists>s'. processChunk env cid (length xs) chunks k s = Inr s'
              \<and> set_inv env xs ?t (Suc k) s')"
      by (rule set_inv_step[OF _ _ ch refl])
  qed simp
qed


section \<open>Complete runs of the two chunked commands\<close>

lemma findTextChildren_quiet_aux:
  assumes "\<And>c path d. c \<in> set nds \<Longrightarrow>
             updates (snd (findTextNodes env c path d)) = []
             \<and> responses (snd (findTextNodes env c path d)) = []"
  shows "updates (snd (findTextChildren env nds path d)) = []
         \<and> responses (snd (findTextChildren env nds path d)) = []"
  using assms
proof (induction nds)
  case Nil
  show ?case by simp
next
  case (Cons c cs)
  have "updates (snd (findTextNodes env c path d)) = []
        \<and> responses (snd (findTextNodes env c path d)) = []"
    using Cons.prems by simp
  moreover have "updates (snd (findTextChildren env cs path d)) = []
        \<and> responses (snd (findTextChildren env cs path d)) = []"
    using Cons.IH Cons.prems by simp
  ultimately show ?case
    by (cases "findTextNodes env c path d"; cases "findTextChildren env cs path d") simp
qed

lemma findTextNodes_quiet:
  "updates (snd (findTextNodes env nd path d)) = []
   \<and> responses (snd (findTextNodes env nd path d)) = []"
proof (induction nd arbitrary: path d)
  case (Node i nm ty vis chs cs)
  let ?path = "path @ [pathName (Node i nm ty vis chs cs)]"
  obtain b w where below: "findTextChildren env chs ?path (Suc d) = (b, w)"
    by (cases "findTextChildren env chs ?path (Suc d)")
  have "updates (snd (findTextChildren env chs ?path (Suc d))) = []
        \<and> responses (snd (findTextChildren env chs ?path (Suc d))) = []"
    using Node.IH by (intro findTextChildren_quiet_aux) simp
  then have "updates w = [] \<and> responses w = []"
    by (simp add: below)
  then show ?case
    using below by (simp add: Let_def)
qed

lemma scan_unfold:
  assumes nd: "lookupNode env (p_nodeId p) = Some nd" and ch: "useChunkingOf p"
  shows "scanTextNodes env (Some p) =
     (case scanLoop env (scanCommandId env p) (collectNodesToProcess nd [] 0)
             (length (collectNodesToProcess nd [] 0)) (chunkSizeOf p)
             (Math_ceil (of_nat (length (collectNodesToProcess nd [] 0)) / of_nat (chunkSizeOf p)))
             \<lparr> sc_i = 0, sc_allTextNodes = [], sc_processedNodes = 0, sc_chunksProcessed = 0,
               sc_trace = [sendProgressUpdate (scanCommandId env p) ''scan_text_nodes'' Started 0 0 0
                             (Some (PChunkSize (chunkSizeOf p))),
                           sendProgressUpdate (scanCommandId env p) ''scan_text_nodes'' InProgress 5
                             (length (collectNodesToProcess nd [] 0)) 0
                             (Some (PScanPlan (length (collectNodesToProcess nd [] 0))
                                (Math_ceil (of_nat (length (collectNodesToProcess nd [] 0)) / of_nat (chunkSizeOf p)))
                                (chunkSizeOf p)))] \<rparr> of
        None \<Rightarrow> None
      | Some s \<Rightarrow>
          Some (sc_trace s
                @ [sendProgressUpdate (scanCommandId env p) ''scan_text_nodes'' Completed 100
                     (length (collectNodesToProcess nd [] 0)) (sc_processedNodes s)
                     (Some (PScanDone (sc_allTextNodes s) (sc_processedNodes s)
                              (sc_chunksProcessed s)))],
                Inr (ScanChunked True (length (sc_allTextNodes s)) (sc_processedNodes s)
                       (sc_chunksProcessed s) (sc_allTextNodes s) (scanCommandId env p))))"
  unfolding scanTextNodes_def Let_def
  by (simp only: option.case nd ch not_True_eq_False if_False)

lemma scan_chunked_run:
  assumes nd: "lookupNode env (p_nodeId p) = Some nd" and ch: "useChunkingOf p"
    and c: "0 < chunkSizeOf p"
  defines "ns \<equiv> collectNodesToProcess nd [] 0"
  defines "t \<equiv> Math_ceil (of_nat (length ns) / of_nat (chunkSizeOf p))"
  shows "\<exists>s :: scan_state. scanTextNodes env (Some p) =
               Some (sc_trace s
                     @ [sendProgressUpdate (scanCommandId env p) ''scan_text_nodes'' Completed 100
                          (length ns) (length ns)
                          (Some (PScanDone (sc_allTextNodes s) (length ns) (nat t)))],
                     Inr (ScanChunked True (length (sc_allTextNodes s)) (length ns) (nat t)
                            (sc_allTextNodes s) (scanCommandId env p)))
           \<and> ti_id ` set (sc_allTextNodes s) \<subseteq> (nid \<circ> ni_node) ` set ns
           \<and> trace_inv 50 t (length ns) (nat t) (length ns) False (sc_trace s)"
proof -
  have t: "t = Math_ceil (of_nat (length ns) / of_nat (chunkSizeOf p))"
    by (simp only: t_def)
  from scan_loop_result[OF c t refl, of env "scanCommandId env p"]
  obtain s where s: "scanLoop env (scanCommandId env p) ns (length ns) (chunkSizeOf p) t
             \<lparr> sc_i = 0, sc_allTextNodes = [], sc_processedNodes = 0, sc_chunksProcessed = 0,
               sc_trace = [sendProgressUpdate (scanCommandId env p) ''scan_text_nodes'' Started 0 0 0
                             (Some (PChunkSize (chunkSizeOf p))),
                           sendProgressUpdate (scanCommandId env p) ''scan_text_nodes'' InProgress 5
                             (length ns) 0
                             (Some (PScanPlan (length ns) t (chunkSizeOf p)))] \<rparr> = Some s
      \<and> sc_chunksProcessed s = nat t \<and> sc_processedNodes s = length ns
      \<and> ti_id ` set (sc_allTextNodes s) \<subseteq> (nid \<circ> ni_node) ` set ns
      \<and> trace_inv 50 t (length ns) (nat t) (length ns) False (sc_trace s)"
    by (rule exE)
  note run = s[THEN conjunct1]
  note k = s[THEN conjunct2, THEN conjunct1]
  note pn = s[THEN conjunct2, THEN conjunct2, THEN conjunct1]
  note ids = s[THEN conjunct2, THEN conjunct2, THEN conjunct2, THEN conjunct1]
  note tr = s[THEN conjunct2, THEN conjunct2, THEN conjunct2, THEN conjunct2]
  have "scanTextNodes env (Some p) =
               Some (sc_trace s
                     @ [sendProgressUpdate (scanCommandId env p) ''scan_text_nodes'' Completed 100
                          (length ns) (sc_processedNodes s)
                          (Some (PScanDone (sc_allTextNodes s) (sc_processedNodes s)
                                   (sc_chunksProcessed s)))],
                     Inr (ScanChunked True (length (sc_allTextNodes s)) (sc_processedNodes s)
                            (sc_chunksProcessed s) (sc_allTextNodes s) (scanCommandId env p)))"
    unfolding scan_unfold[OF nd ch] run[unfolded ns_def t_def] ns_def
    by (simp only: option.case)
  then have eq: "scanTextNodes env (Some p) =
               Some (sc_trace s
                     @ [sendProgressUpdate (scanCommandId env p) ''scan_text_nodes'' Completed 100
                          (length ns) (length ns)
                          (Some (PScanDone (sc_allTextNodes s) (length ns) (nat t)))],
                     Inr (ScanChunked True (length (sc_allTextNodes s)) (length ns) (nat t)
                            (sc_allTextNodes s) (scanCommandId env p)))"
    by (simp only: k pn)
  show ?thesis
    by (rule exI[of _ s], intro conjI) (fact eq ids tr)+
qed

lemma set_unfold:
  assumes ok: "\<not> falsy (p_nodeId p)" and tx: "p_text p = Some xs"
    and cid: "cid = or_else (p_commandId p) (generateCommandId env)"
  shows "setMultipleTextContents env (Some p) =
     (case processChunks env cid (length xs) (mkChunks xs 0) 0
             \<lparr> st_results = [], st_successCount = 0, st_failureCount = 0,
               st_trace = [sendProgressUpdate cid ''set_multiple_text_contents'' Started 0
                             (length xs) 0 (Some (PTotal (length xs))),
                           sendProgressUpdate cid ''set_multiple_text_contents'' InProgress 5
                             (length xs) 0
                             (Some (PSetPlan (length xs) (length (mkChunks xs 0)) CHUNK_SIZE))],
               st_texts = Map.empty \<rparr> of
        Inl x \<Rightarrow> (fst x, Inl (snd x))
      | Inr s \<Rightarrow>
          (st_trace s
           @ [sendProgressUpdate cid ''set_multiple_text_contents'' Completed 100
                (length xs) (st_successCount s + st_failureCount s)
                (Some (PSetDone (length xs) (st_successCount s) (st_failureCount s)
                         (length (mkChunks xs 0)) (st_results s)))],
           Inr \<lparr> sr_success = (0 < st_successCount s),
                 sr_nodeId = interpolate (p_nodeId p),
                 replacementsApplied = st_successCount s,
                 replacementsFailed = st_failureCount s,
                 totalReplacements = length xs,
                 results = st_results s,
                 completedInChunks = length (mkChunks xs 0),
                 sr_commandId = cid \<rparr>))"
  using ok tx unfolding setMultipleTextContents_def cid
  by (simp add: Let_def split: sum.splits prod.splits)


lemma trace_inv_completed:
  assumes inv: "trace_inv d t n k p paused tr" and k: "int k \<le> t"
    and c: "status c = Completed" "progress c = 100"
  shows "sorted (map progress (updates (tr @ [PostMessage (CommandProgress c)])))"
    and "completes (updates (tr @ [PostMessage (CommandProgress c)]))"
proof -
  have le: "\<forall>u \<in> set (updates tr). progress u \<le> 100"
    using inv chunkProgress_upper[OF k] unfolding trace_inv_def by fastforce
  show "sorted (map progress (updates (tr @ [PostMessage (CommandProgress c)])))"
    using inv le c unfolding trace_inv_def by (simp add: sorted_append)
  show "completes (updates (tr @ [PostMessage (CommandProgress c)]))"
    using inv c unfolding trace_inv_def completes_def by simp
qed

lemma set_cases:
  assumes ok: "\<not> falsy (p_nodeId p)" and tx: "p_text p = Some xs"
  shows "(\<exists>tr m. setMultipleTextContents env (Some p) = (tr, Inl m)
             \<and> (\<exists>v. NullEntry v \<in> set xs) \<and> aborted_run tr)
         \<or> (\<exists>tr r. setMultipleTextContents env (Some p) = (tr, Inr r)
             \<and> sorted (map progress (updates tr)) \<and> completes (updates tr)
             \<and> responses tr = [])"
proof -
  let ?cid = "or_else (p_commandId p) (generateCommandId env)"
  let ?chunks = "mkChunks xs 0"
  let ?s0 = "\<lparr> st_results = [], st_successCount = 0, st_failureCount = 0,
               st_trace = [sendProgressUpdate ?cid ''set_multiple_text_contents'' Started 0
                             (length xs) 0 (Some (PTotal (length xs))),
                           sendProgressUpdate ?cid ''set_multiple_text_contents'' InProgress 5
                             (length xs) 0
                             (Some (PSetPlan (length xs) (length ?chunks) CHUNK_SIZE))],
               st_texts = Map.empty \<rparr>"
  from set_loop_result[where xs = xs and env = env and cid = ?cid, OF refl refl]
  show ?thesis
  proof
    assume "\<exists>x. processChunks env ?cid (length xs) ?chunks 0 ?s0 = Inl x
              \<and> (\<exists>v. NullEntry v \<in> set xs) \<and> aborted_run (fst x)"
    then obtain x where x: "processChunks env ?cid (length xs) ?chunks 0 ?s0 = Inl x"
      and nl: "\<exists>v. NullEntry v \<in> set xs" and ab: "aborted_run (fst x)"
      by blast
    have "setMultipleTextContents env (Some p) = (fst x, Inl (snd x))"
      unfolding set_unfold[OF ok tx refl] x by simp
    with nl ab show ?thesis by blast
  next
    assume "\<exists>s. processChunks env ?cid (length xs) ?chunks 0 ?s0 = Inr s
              \<and> set_inv env xs (length ?chunks) (length ?chunks) s"
    then obtain s where s: "processChunks env ?cid (length xs) ?chunks 0 ?s0 = Inr s"
      and inv: "set_inv env xs (length ?chunks) (length ?chunks) s"
      by blast
    let ?c = "progressUpdate ?cid ''set_multiple_text_contents'' Completed 100
                (length xs) (st_successCount s + st_failureCount s)
                (Some (PSetDone (length xs) (st_successCount s) (st_failureCount s)
                         (length ?chunks) (st_results s)))"
    have tr: "trace_inv 1000 (int (length ?chunks)) (length xs) (length ?chunks)
                (length (st_results s)) (length ?chunks < length ?chunks) (st_trace s)"
      using inv unfolding set_inv_def by blast
    note fin = trace_inv_completed[OF tr order_refl, where c = ?c]
    have rs: "responses (st_trace s @ [PostMessage (CommandProgress ?c)]) = []"
      using tr unfolding trace_inv_def by simp
    have "setMultipleTextContents env (Some p) =
            (st_trace s @ [PostMessage (CommandProgress ?c)],
             Inr \<lparr> sr_success = (0 < st_successCount s),
                 sr_nodeId = interpolate (p_nodeId p),
                 replacementsApplied = st_successCount s,
                 replacementsFailed = st_failureCount s,
                 totalReplacements = length xs,
                 results = st_results s,
                 completedInChunks = length ?chunks,
                 sr_commandId = ?cid \<rparr>)"
      unfolding set_unfold[OF ok tx refl] s by (simp add: sendProgressUpdate_def)
    with fin rs show ?thesis by simp
  qed
qed



lemma scan_plain:
  assumes "lookupNode env (p_nodeId p) = Some nd" and "\<not> useChunkingOf p"
  shows "scanTextNodes env (Some p) =
     Some ([sendProgressUpdate (scanCommandId env p) ''scan_text_nodes'' Started 0 1 0 None]
           @ snd (findTextNodes env nd [] 0)
           @ [sendProgressUpdate (scanCommandId env p) ''scan_text_nodes'' Completed 100
                (length (fst (findTextNodes env nd [] 0)))
                (length (fst (findTextNodes env nd [] 0)))
                (Some (PTextNodes (fst (findTextNodes env nd [] 0))))],
           Inr (ScanPlain True (length (fst (findTextNodes env nd [] 0)))
                  (fst (findTextNodes env nd [] 0)) (scanCommandId env p)))"
  unfolding scanTextNodes_def Let_def
  by (simp only: option.case assms not_False_eq_True if_True case_prod_beta)







lemma set_throws:
  assumes ok: "\<not> falsy (p_nodeId p)" and tx: "p_text p = Some xs"
    and run: "setMultipleTextContents env (Some p) = (tr, Inl m)"
  shows "\<exists>v. NullEntry v \<in> set xs"
  using set_cases[OF ok tx, of env] run by auto

section \<open>Progress is monotone\<close>







section \<open>Facts of a complete chunked run\<close>

lemma last_filter_last: "xs \<noteq> [] \<Longrightarrow> P (last xs) \<Longrightarrow> last (filter P xs) = last xs"
  by (cases xs rule: rev_cases) simp_all

lemma trace_inv_final:
  assumes inv: "trace_inv d (int k) n k n False tr"
    and c: "status c = Completed" "\<not> startsChunk (payload c)" "\<not> endsChunk (payload c)"
           "totalItems c = n" "processedItems c = n"
  shows "chunked_run d (int k) n (tr @ [PostMessage (CommandProgress c)])"
proof -
  let ?us = "updates tr"
  let ?tr' = "tr @ [PostMessage (CommandProgress c)]"
  have us': "updates ?tr' = ?us @ [c]" by simp
  have len: "2 \<le> length ?us" and ne: "?us \<noteq> []"
    using inv unfolding trace_inv_def by auto
  have lastp: "status (last ?us) = InProgress" "processedItems (last ?us) = n"
    using inv unfolding trace_inv_def by blast+
  have filt: "filter (\<lambda>u. status u = InProgress) (updates ?tr') = filter (\<lambda>u. status u = InProgress) ?us"
    unfolding us' using c by simp
  have g1: "length (filter (\<lambda>u. status u = InProgress) (updates ?tr')) = 1 + 2 * nat (int k)"
    unfolding filt using inv unfolding trace_inv_def by simp
  have "last (filter (\<lambda>u. status u = InProgress) ?us) = last ?us"
    using ne lastp(1) by (simp add: last_filter_last)
  then have g2: "processedItems (last (filter (\<lambda>u. status u = InProgress) (updates ?tr'))) = n"
    unfolding filt using lastp(2) by simp
  have sk: "skeleton d tr = groups_with_pauses k"
    using inv unfolding trace_inv_def groups_with_pauses_def by simp
  have g3: "skeleton d ?tr' = groups_with_pauses (nat (int k))"
    using sk c by simp
  have g4: "length (filter (\<lambda>e. e = Delay d) ?tr') = nat (int k) - 1"
    unfolding pauses_skeleton g3 by (simp add: pauses_groups)
  have g5: "chunk_phase_ok (reported (int k)) 0 (updates ?tr')"
    unfolding us' using inv c unfolding trace_inv_def by (simp add: chunk_phase_ok_append)
  have n1: "updates ?tr' ! 1 = ?us ! 1"
    unfolding us' using len by (auto simp: nth_append)
  have g6: "status (updates ?tr' ! 1) = InProgress" "progress (updates ?tr' ! 1) = 5"
    "processedItems (updates ?tr' ! 1) = 0"
    "\<not> startsChunk (payload (updates ?tr' ! 1))" "\<not> endsChunk (payload (updates ?tr' ! 1))"
    unfolding n1 using inv unfolding trace_inv_def by blast+
  have g7: "\<forall>u \<in> set (drop 2 (butlast (updates ?tr'))). status u = InProgress
          \<and> (startsChunk (payload u) \<or> endsChunk (payload u))
          \<and> 5 \<le> progress u \<and> progress u \<le> 95"
    unfolding us' using inv unfolding trace_inv_def by simp
  have g8: "\<forall>u \<in> set (drop 1 (updates ?tr')). totalItems u = n"
    unfolding us' using inv c len unfolding trace_inv_def by auto
  have g9: "status (last (updates ?tr')) = Completed" "processedItems (last (updates ?tr')) = n"
    "totalItems (last (updates ?tr')) = n"
    unfolding us' using c by simp_all
  have g10: "responses ?tr' = []"
    using inv unfolding trace_inv_def by simp
  show ?thesis
    unfolding chunked_run_def
    by (intro conjI) (fact g1 g2 g3 g4 g5 g6 g7 g8 g9 g10)+
qed

lemma scan_final:
  assumes nd: "lookupNode env (p_nodeId p) = Some nd" and ch: "useChunkingOf p"
    and c: "0 < chunkSizeOf p"
  defines "ns \<equiv> collectNodesToProcess nd [] 0"
  defines "t \<equiv> \<lceil>rat_of_nat (length ns) / rat_of_nat (chunkSizeOf p)\<rceil>"
  shows "\<exists>tr tns. scanTextNodes env (Some p) =
                   Some (tr, Inr (ScanChunked True (length tns) (length ns) (nat t) tns
                                    (scanCommandId env p)))
           \<and> chunked_run 50 t (length ns) tr
           \<and> ti_id ` set tns \<subseteq> (nid \<circ> ni_node) ` set ns"
proof -
  have t: "t = Math_ceil (rat_of_nat (length ns) / rat_of_nat (chunkSizeOf p))"
    by (simp only: t_def Math_ceil_def)
  have t0: "int (nat t) = t"
    unfolding t using ceil_nonneg[of "length ns" "chunkSizeOf p"] by simp
  from scan_chunked_run[OF nd ch c]
  obtain s :: scan_state where run: "scanTextNodes env (Some p) =
               Some (sc_trace s
                     @ [sendProgressUpdate (scanCommandId env p) ''scan_text_nodes'' Completed 100
                          (length ns) (length ns)
                          (Some (PScanDone (sc_allTextNodes s) (length ns) (nat t)))],
                     Inr (ScanChunked True (length (sc_allTextNodes s)) (length ns) (nat t)
                            (sc_allTextNodes s) (scanCommandId env p)))"
    and ids: "ti_id ` set (sc_allTextNodes s) \<subseteq> (nid \<circ> ni_node) ` set ns"
    and tr: "trace_inv 50 t (length ns) (nat t) (length ns) False (sc_trace s)"
    unfolding ns_def t by blast
  have "trace_inv 50 (int (nat t)) (length ns) (nat t) (length ns) False (sc_trace s)"
    using tr by (simp only: t0)
  then have "chunked_run 50 (int (nat t)) (length ns)
          (sc_trace s @ [PostMessage (CommandProgress
             (progressUpdate (scanCommandId env p) ''scan_text_nodes'' Completed 100
                (length ns) (length ns)
                (Some (PScanDone (sc_allTextNodes s) (length ns) (nat t)))))])"
    by (rule trace_inv_final) simp_all
  then have fin: "chunked_run 50 t (length ns)
          (sc_trace s @ [sendProgressUpdate (scanCommandId env p) ''scan_text_nodes'' Completed 100
                          (length ns) (length ns)
                          (Some (PScanDone (sc_allTextNodes s) (length ns) (nat t)))])"
    by (simp only: t0 sendProgressUpdate_def)
  show ?thesis
    by (rule exI[of _ "sc_trace s @ [sendProgressUpdate (scanCommandId env p) ''scan_text_nodes''
            Completed 100 (length ns) (length ns)
            (Some (PScanDone (sc_allTextNodes s) (length ns) (nat t)))]"],
        rule exI[of _ "sc_allTextNodes s"], intro conjI)
       (fact run fin ids)+
qed


section \<open>The number of in-progress updates\<close>





section \<open>Delays between groups\<close>



section \<open>Progress during the chunk phase\<close>




text \<open>The rounding of the quotient shows in the value: after 23 of 36 groups the code
  reports 62, where exact arithmetic would give 63.\<close>

lemma chunkProgress_inexact:
  "chunkProgress 23 36 = 62 \<and> Math_round (5 + (23 / 36) * 90) = 63"
  by code_simp

section \<open>An empty list of replacements\<close>

lemma set_empty:
  assumes "\<not> falsy (p_nodeId p)" and "p_text p = Some []"
  shows "setMultipleTextContents env (Some p) =
     ([sendProgressUpdate (or_else (p_commandId p) (generateCommandId env))
         ''set_multiple_text_contents'' Started 0 0 0 (Some (PTotal 0)),
       sendProgressUpdate (or_else (p_commandId p) (generateCommandId env))
         ''set_multiple_text_contents'' InProgress 5 0 0 (Some (PSetPlan 0 0 CHUNK_SIZE)),
       sendProgressUpdate (or_else (p_commandId p) (generateCommandId env))
         ''set_multiple_text_contents'' Completed 100 0 0 (Some (PSetDone 0 0 0 0 []))],
      Inr \<lparr> sr_success = False, sr_nodeId = interpolate (p_nodeId p),
            replacementsApplied = 0, replacementsFailed = 0, totalReplacements = 0,
            results = [], completedInChunks = 0,
            sr_commandId = or_else (p_commandId p) (generateCommandId env) \<rparr>)"
proof -
  have ch: "mkChunks ([] :: entry list) 0 = []"
    by (subst mkChunks.simps) simp
  have pc: "processChunks env cid 0 [] 0 s = Inr s" for cid s
    by (subst processChunks.simps) simp
  show ?thesis
    using assms unfolding setMultipleTextContents_def
    by (simp add: Let_def ch pc)
qed

text \<open>
  C5, as the code has it. Called with an empty \<open>text\<close> array (and a node id),
  \<open>set_multiple_text_contents\<close> sends three updates and nothing else: \<open>started\<close>, the
  planning update with status \<open>in_progress\<close> and progress 5, and \<open>completed\<close> with
  progress 100, all with zero processed items. It throws nothing and returns an aggregate
  with no results and \<open>success: false\<close>.
\<close>

theorem empty_replacement_list:
  assumes "\<not> falsy (p_nodeId p)" and "p_text p = Some []"
  shows "\<exists>tr r. setMultipleTextContents env (Some p) = (tr, Inr r)
           \<and> map status (updates tr) = [Started, InProgress, Completed]
           \<and> map progress (updates tr) = [0, 5, 100]
           \<and> map processedItems (updates tr) = [0, 0, 0]
           \<and> length tr = 3
           \<and> \<not> sr_success r \<and> totalReplacements r = 0 \<and> results r = []"
  unfolding set_empty[OF assms]
  by (simp add: sendProgressUpdate_def)

theorem empty_replacement_list_witness:
  "\<exists>tr r. setMultipleTextContents sample_env (Some sample_empty) = (tr, Inr r)
           \<and> map status (updates tr) = [Started, InProgress, Completed]
           \<and> map progress (updates tr) = [0, 5, 100]
           \<and> map processedItems (updates tr) = [0, 0, 0]
           \<and> length tr = 3
           \<and> \<not> sr_success r \<and> totalReplacements r = 0 \<and> results r = []"
  by (rule empty_replacement_list) (simp_all add: sample_empty_def)

text \<open>The update that follows \<open>started\<close> is the planning update, not \<open>completed\<close>.\<close>

theorem started_then_completed_counterexample:
  "p_text sample_empty = Some []
   \<and> map status (updates (fst (setMultipleTextContents sample_env (Some sample_empty))))
       = [Started, InProgress, Completed]
   \<and> status (updates (fst (setMultipleTextContents sample_env (Some sample_empty))) ! 1)
       \<noteq> Completed"
  by code_simp

section \<open>The aggregate of set_multiple_text_contents\<close>





text \<open>A \<open>text\<close> array makes the command throw exactly when it holds \<open>null\<close> or
  \<open>undefined\<close>.\<close>

lemma entryObjects_Inr: "entryObjects es = Inr rs \<Longrightarrow> es = map Entry rs"
  by (induction es arbitrary: rs rule: entryObjects.induct) (auto split: sum.splits)

lemma nullish_entry_throws:
  assumes ok: "\<not> falsy (p_nodeId p)" and tx: "p_text p = Some xs"
  shows "(\<exists>tr m. setMultipleTextContents env (Some p) = (tr, Inl m))
           \<longleftrightarrow> (\<exists>v. NullEntry v \<in> set xs)"
proof
  assume "\<exists>tr m. setMultipleTextContents env (Some p) = (tr, Inl m)"
  then show "\<exists>v. NullEntry v \<in> set xs"
    using set_throws[OF ok tx] by blast
next
  assume nl: "\<exists>v. NullEntry v \<in> set xs"
  let ?cid = "or_else (p_commandId p) (generateCommandId env)"
  let ?chunks = "mkChunks xs 0"
  let ?s0 = "\<lparr> st_results = [], st_successCount = 0, st_failureCount = 0,
               st_trace = [sendProgressUpdate ?cid ''set_multiple_text_contents'' Started 0
                             (length xs) 0 (Some (PTotal (length xs))),
                           sendProgressUpdate ?cid ''set_multiple_text_contents'' InProgress 5
                             (length xs) 0
                             (Some (PSetPlan (length xs) (length ?chunks) CHUNK_SIZE))],
               st_texts = Map.empty \<rparr>"
  have "\<not> (\<exists>s. processChunks env ?cid (length xs) ?chunks 0 ?s0 = Inr s
              \<and> set_inv env xs (length ?chunks) (length ?chunks) s)"
  proof
    assume "\<exists>s. processChunks env ?cid (length xs) ?chunks 0 ?s0 = Inr s
              \<and> set_inv env xs (length ?chunks) (length ?chunks) s"
    then obtain s where inv: "set_inv env xs (length ?chunks) (length ?chunks) s"
      by blast
    have "\<not> length ?chunks * CHUNK_SIZE < length xs"
      using mkChunks_length_iff[of "length ?chunks" xs 0] by simp
    then have "take (length ?chunks * CHUNK_SIZE) xs = xs" by simp
    with inv obtain rs where "entryObjects xs = Inr rs"
      unfolding set_inv_def by auto
    then have "xs = map Entry rs" by (rule entryObjects_Inr)
    with nl show False by auto
  qed
  with set_loop_result[where xs = xs and env = env and cid = ?cid, OF refl refl]
  obtain x where "processChunks env ?cid (length xs) ?chunks 0 ?s0 = Inl x"
    by blast
  then have "setMultipleTextContents env (Some p) = (fst x, Inl (snd x))"
    unfolding set_unfold[OF ok tx refl] by simp
  then show "\<exists>tr m. setMultipleTextContents env (Some p) = (tr, Inl m)"
    by blast
qed







text \<open>
  The \<open>originalText\<close> of a success is read from the document as it is then: of six
  replacements of one node, the first five (one group) report the text the node had
  when the command started, and the sixth reports the text written by the fifth.
\<close>

lemma original_text_follows_writes:
  "map (\<lambda>e. case e of ItemOk n orig new \<Rightarrow> orig | ItemFail n m \<Rightarrow> [])
     (case snd (setMultipleTextContents sample_env (Some sample_repeated)) of
        Inr r \<Rightarrow> results r | Inl m \<Rightarrow> [])
   = [''Hello'', ''Hello'', ''Hello'', ''Hello'', ''Hello'', ''E'']"
  by code_simp

section \<open>One response for every command\<close>











section \<open>Invisible nodes are skipped with their subtrees\<close>

lemma collectChildren_shown:
  assumes "\<And>c path depth. c \<in> set chs \<Longrightarrow> map ni_node (collectNodesToProcess c path depth) = shown c"
  shows "map ni_node (collectChildren chs path depth) = concat (map shown chs)"
  using assms by (induction chs) simp_all

lemma collect_shown: "map ni_node (collectNodesToProcess n path depth) = shown n"
proof (induction n arbitrary: path depth)
  case (Node i nm ty vis chs cs)
  have "map ni_node (collectChildren chs p' d') = concat (map shown chs)" for p' d'
    using Node.IH by (intro collectChildren_shown) simp
  then show ?case by (simp add: Let_def)
qed

lemma findTextChildren_shown:
  assumes "\<And>c path depth. c \<in> set chs \<Longrightarrow>
             ti_id ` set (fst (findTextNodes env c path depth)) \<subseteq> nid ` set (shown c)"
  shows "ti_id ` set (fst (findTextChildren env chs path depth))
           \<subseteq> nid ` set (concat (map shown chs))"
  using assms
proof (induction chs)
  case Nil
  show ?case by simp
next
  case (Cons c cs)
  have a: "ti_id ` set (fst (findTextNodes env c path depth)) \<subseteq> nid ` set (shown c)"
    using Cons.prems by simp
  have b: "ti_id ` set (fst (findTextChildren env cs path depth))
           \<subseteq> nid ` set (concat (map shown cs))"
    using Cons.IH Cons.prems by simp
  show ?case
    using a b
    by (cases "findTextNodes env c path depth"; cases "findTextChildren env cs path depth")
       (auto simp: image_Un)
qed

lemma findTextNodes_shown:
  "ti_id ` set (fst (findTextNodes env n path depth)) \<subseteq> nid ` set (shown n)"
proof (induction n arbitrary: path depth)
  case (Node i nm ty vis chs cs)
  let ?path = "path @ [pathName (Node i nm ty vis chs cs)]"
  obtain b w where below: "findTextChildren env chs ?path (Suc depth) = (b, w)"
    by (cases "findTextChildren env chs ?path (Suc depth)")
  have "ti_id ` set (fst (findTextChildren env chs ?path (Suc depth)))
           \<subseteq> nid ` set (concat (map shown chs))"
    using Node.IH by (intro findTextChildren_shown) simp
  then have "ti_id ` set b \<subseteq> nid ` set (concat (map shown chs))"
    by (simp add: below)
  then show ?case
    using below by (auto simp: Let_def safeTextNode_def)
qed

lemma descendants_split: "mset (descendants n) = mset (shown n) + mset (hidden n)"
proof (induction n)
  case (Node i nm ty vis chs cs)
  have "mset (concat (map descendants chs))
          = mset (concat (map shown chs)) + mset (concat (map hidden chs))"
    using Node.IH by (induction chs) simp_all
  then show ?case by simp
qed

lemma descendants_self: "n \<in> set (descendants n)"
  by (cases n) simp

lemma descendants_trans:
  "m \<in> set (descendants n) \<Longrightarrow> d \<in> set (descendants m) \<Longrightarrow> d \<in> set (descendants n)"
proof (induction n)
  case (Node i nm ty vis chs cs)
  show ?case
  proof (cases "m = Node i nm ty vis chs cs")
    case True
    with Node.prems show ?thesis by simp
  next
    case False
    with Node.prems obtain c where "c \<in> set chs" "m \<in> set (descendants c)"
      by auto
    with Node.IH Node.prems(2) have "d \<in> set (descendants c)" by blast
    with \<open>c \<in> set chs\<close> show ?thesis by auto
  qed
qed

lemma hidden_below:
  "m \<in> set (descendants n) \<Longrightarrow> visible m = Some False \<Longrightarrow> d \<in> set (descendants m)
     \<Longrightarrow> d \<in> set (hidden n)"
proof (induction n)
  case (Node i nm ty vis chs cs)
  show ?case
  proof (cases "vis = Some False")
    case True
    have "d \<in> set (descendants (Node i nm ty vis chs cs))"
      using Node.prems(1,3) by (rule descendants_trans)
    with True show ?thesis by simp
  next
    case False
    with Node.prems(2) have "m \<noteq> Node i nm ty vis chs cs" by auto
    with Node.prems(1) obtain c where c: "c \<in> set chs" "m \<in> set (descendants c)"
      by auto
    with Node.IH Node.prems(2,3) have "d \<in> set (hidden c)" by blast
    with c False show ?thesis by auto
  qed
qed

lemma shown_hidden_disjoint:
  assumes "distinct (map nid (descendants n))"
  shows "nid ` set (shown n) \<inter> nid ` set (hidden n) = {}"
proof -
  have "mset (map nid (descendants n)) = mset (map nid (shown n @ hidden n))"
    using descendants_split[of n] by (metis mset_append mset_map)
  then have "distinct (map nid (shown n @ hidden n))"
    using assms by (metis mset_eq_imp_distinct_iff)
  then show ?thesis by auto
qed

lemma hidden_not_shown:
  assumes "distinct (map nid (descendants n))" and "m \<in> set (descendants n)"
    and "visible m = Some False" and "d \<in> set (descendants m)"
  shows "nid d \<notin> nid ` set (shown n)"
  using shown_hidden_disjoint[OF assms(1)] hidden_below[OF assms(2-4)] by blast

text \<open>
  C9. In a document whose node ids are distinct, take a node whose \<open>visible\<close> is \<open>false\<close>
  and any node of its subtree (the node itself included). That node is not collected by
  \<open>collectNodesToProcess\<close>, is not described by \<open>findTextNodes\<close>, and does not appear in
  the \<open>textNodes\<close> a scan returns, chunked or not; \<open>totalItems\<close> and \<open>processedItems\<close>
  of the final update are the length of the list from which it is absent.
\<close>

theorem invisible_subtrees_excluded:
  assumes ids: "distinct (map nid (descendants rt))"
    and m: "m \<in> set (descendants rt)" and hid: "visible m = Some False"
    and d: "d \<in> set (descendants m)"
    and nd: "lookupNode env (p_nodeId p) = Some rt" and c: "0 < chunkSizeOf p"
  shows "nid d \<notin> (nid \<circ> ni_node) ` set (collectNodesToProcess rt path depth)
       \<and> nid d \<notin> ti_id ` set (fst (findTextNodes env rt path depth))
       \<and> (\<exists>tr r. scanTextNodes env (Some p) = Some (tr, Inr r)
            \<and> nid d \<notin> ti_id ` set (textNodesOf r)
            \<and> totalItems (last (updates tr)) = processedItems (last (updates tr))
            \<and> processedItems (last (updates tr))
                = (if useChunkingOf p then length (collectNodesToProcess rt [] 0)
                   else length (fst (findTextNodes env rt [] 0)))
            \<and> (useChunkingOf p \<longrightarrow>
                  (\<forall>u \<in> set (drop 1 (updates tr)).
                     totalItems u = length (collectNodesToProcess rt [] 0))))"
proof (intro conjI)
  note ns = hidden_not_shown[OF ids m hid d]
  have col: "(nid \<circ> ni_node) ` set (collectNodesToProcess rt pa de) = nid ` set (shown rt)"
    for pa de
    using collect_shown[of rt pa de] by (metis image_comp set_map)
  show "nid d \<notin> (nid \<circ> ni_node) ` set (collectNodesToProcess rt path depth)"
    unfolding col by (rule ns)
  show f: "nid d \<notin> ti_id ` set (fst (findTextNodes env rt path depth))"
    using findTextNodes_shown[of env rt path depth] ns by blast
  show "\<exists>tr r. scanTextNodes env (Some p) = Some (tr, Inr r)
            \<and> nid d \<notin> ti_id ` set (textNodesOf r)
            \<and> totalItems (last (updates tr)) = processedItems (last (updates tr))
            \<and> processedItems (last (updates tr))
                = (if useChunkingOf p then length (collectNodesToProcess rt [] 0)
                   else length (fst (findTextNodes env rt [] 0)))
            \<and> (useChunkingOf p \<longrightarrow>
                  (\<forall>u \<in> set (drop 1 (updates tr)).
                     totalItems u = length (collectNodesToProcess rt [] 0)))"
  proof (cases "useChunkingOf p")
    case True
    let ?n = "length (collectNodesToProcess rt [] 0)"
    let ?t = "\<lceil>rat_of_nat ?n / rat_of_nat (chunkSizeOf p)\<rceil>"
    from scan_final[OF nd True c]
    obtain tr tns where run: "scanTextNodes env (Some p) =
                   Some (tr, Inr (ScanChunked True (length tns) ?n (nat ?t) tns
                                    (scanCommandId env p)))"
      and cr: "chunked_run 50 ?t ?n tr"
      and sub: "ti_id ` set tns \<subseteq> (nid \<circ> ni_node) ` set (collectNodesToProcess rt [] 0)"
      by blast
    have a: "nid d \<notin> ti_id ` set (textNodesOf (ScanChunked True (length tns) ?n (nat ?t) tns
                                    (scanCommandId env p)))"
      using sub ns unfolding col by auto
    have b: "totalItems (last (updates tr)) = processedItems (last (updates tr))"
      "processedItems (last (updates tr)) = ?n"
      "\<forall>u \<in> set (drop 1 (updates tr)). totalItems u = ?n"
      using cr unfolding chunked_run_def by simp_all
    show ?thesis
      using True run a b
      by (intro exI[of _ tr] exI[of _ "ScanChunked True (length tns) ?n (nat ?t) tns
                                    (scanCommandId env p)"]) simp
  next
    case False
    let ?tns = "fst (findTextNodes env rt [] 0)"
    have "nid d \<notin> ti_id ` set ?tns"
      using findTextNodes_shown[of env rt "[]" 0] ns by blast
    then show ?thesis
      using False unfolding scan_plain[OF nd False]
      by (simp add: sendProgressUpdate_def findTextNodes_quiet)
  qed
qed

theorem invisible_subtrees_excluded_witness:
  "nid (Node ''1:4'' ''Note'' ''TEXT'' (Some True) [] ''secret'')
       \<notin> (nid \<circ> ni_node) ` set (collectNodesToProcess sample_document [] 0)
       \<and> nid (Node ''1:4'' ''Note'' ''TEXT'' (Some True) [] ''secret'')
           \<notin> ti_id ` set (fst (findTextNodes sample_env sample_document [] 0))
       \<and> (\<exists>tr r. scanTextNodes sample_env (Some sample_scan) = Some (tr, Inr r)
            \<and> nid (Node ''1:4'' ''Note'' ''TEXT'' (Some True) [] ''secret'')
                \<notin> ti_id ` set (textNodesOf r)
            \<and> totalItems (last (updates tr)) = processedItems (last (updates tr))
            \<and> processedItems (last (updates tr))
                = (if useChunkingOf sample_scan
                   then length (collectNodesToProcess sample_document [] 0)
                   else length (fst (findTextNodes sample_env sample_document [] 0)))
            \<and> (useChunkingOf sample_scan \<longrightarrow>
                  (\<forall>u \<in> set (drop 1 (updates tr)).
                     totalItems u = length (collectNodesToProcess sample_document [] 0))))"
proof (rule invisible_subtrees_excluded[where
          m = "Node ''1:3'' ''Hidden'' ''GROUP'' (Some False)
                 [Node ''1:4'' ''Note'' ''TEXT'' (Some True) [] ''secret''] []"])
  show "distinct (map nid (descendants sample_document))"
    by (simp add: sample_document_def sample_title_def sample_unnamed_def)
  show "Node ''1:3'' ''Hidden'' ''GROUP'' (Some False)
          [Node ''1:4'' ''Note'' ''TEXT'' (Some True) [] ''secret''] []
        \<in> set (descendants sample_document)"
    by (simp add: sample_document_def sample_title_def sample_unnamed_def)
  show "visible (Node ''1:3'' ''Hidden'' ''GROUP'' (Some False)
          [Node ''1:4'' ''Note'' ''TEXT'' (Some True) [] ''secret''] []) = Some False"
    by simp
  show "Node ''1:4'' ''Note'' ''TEXT'' (Some True) [] ''secret''
        \<in> set (descendants (Node ''1:3'' ''Hidden'' ''GROUP'' (Some False)
          [Node ''1:4'' ''Note'' ''TEXT'' (Some True) [] ''secret''] []))"
    by simp
  show "lookupNode sample_env (p_nodeId sample_scan) = Some sample_document"
    by (simp add: lookupNode_def sample_env_def sample_scan_def)
  show "0 < chunkSizeOf sample_scan"
    by (simp add: chunkSizeOf_def sample_scan_def)
qed

section \<open>Channel isolation\<close>

lemma channelOf_None: "channelOf reg p = None \<Longrightarrow> p \<notin> set (concat (map snd reg))"
  by (auto simp: channelOf_def find_None_iff)

lemma add_peer_members:
  "set (concat (map snd (map (\<lambda>ch. if fst ch = c then (c, snd ch @ [p]) else ch) reg)))
     \<subseteq> insert p (set (concat (map snd reg)))"
  by (induction reg) auto

lemma add_peer_distinct:
  assumes "distinct (map fst reg)" and "distinct (concat (map snd reg))"
    and "p \<notin> set (concat (map snd reg))"
  shows "distinct (concat (map snd (map (\<lambda>ch. if fst ch = c then (c, snd ch @ [p]) else ch) reg)))"
  using assms
proof (induction reg)
  case Nil
  show ?case by simp
next
  case (Cons ch rest)
  let ?f = "\<lambda>ch. if fst ch = c then (c, snd ch @ [p]) else ch"
  show ?case
  proof (cases "fst ch = c")
    case True
    have "fst ch \<notin> fst ` set rest"
      using Cons.prems(1) by simp
    then have "\<forall>x \<in> set rest. fst x \<noteq> c"
      using True by (metis imageI)
    then have "map ?f rest = rest"
      by (induction rest) auto
    then show ?thesis
      using True Cons.prems by auto
  next
    case False
    have d: "distinct (concat (map snd (map ?f rest)))"
      using Cons.IH Cons.prems by simp
    have "set (snd ch) \<inter> set (concat (map snd (map ?f rest))) = {}"
      using add_peer_members[of c p rest] Cons.prems(2,3) by auto
    then show ?thesis
      using False d Cons.prems(2) by simp
  qed
qed

lemma join_wf:
  assumes "registry_wf reg" and "join reg p c = Inr reg'"
  shows "registry_wf reg'"
proof (cases "channelOf reg p")
  case (Some c')
  with assms show ?thesis
    by (auto simp: join_def split: if_splits)
next
  case None
  note new = channelOf_None[OF None]
  show ?thesis
  proof (cases "c \<in> set (map fst reg)")
    case True
    then have r: "reg' = map (\<lambda>ch. if fst ch = c then (c, snd ch @ [p]) else ch) reg"
      using assms(2) None by (simp add: join_def)
    have k: "map fst reg' = map fst reg"
      unfolding r by (induction reg) auto
    have dd: "distinct (concat (map snd reg'))"
      unfolding r using assms(1) new
      by (intro add_peer_distinct) (simp_all add: registry_wf_def)
    show ?thesis
      using assms(1) k dd by (simp add: registry_wf_def)
  next
    case False
    then have "reg' = reg @ [(c, [p])]"
      using assms(2) None by (simp add: join_def)
    then show ?thesis
      using assms(1) False new unfolding registry_wf_def by auto
  qed
qed

lemma leave_members:
  "set (concat (map snd (filter (\<lambda>ch. snd ch \<noteq> []) (map (\<lambda>ch. (fst ch, removeAll p (snd ch))) reg))))
     \<subseteq> set (concat (map snd reg))"
  by (induction reg) auto

lemma leave_keys:
  "set (map fst (filter (\<lambda>ch. snd ch \<noteq> []) (map (\<lambda>ch. (fst ch, removeAll p (snd ch))) reg)))
     \<subseteq> set (map fst reg)"
  by (induction reg) auto

lemma leave_wf:
  assumes "registry_wf reg"
  shows "registry_wf (leave reg p)"
  using assms unfolding registry_wf_def leave_def
proof (induction reg)
  case Nil
  show ?case by simp
next
  case (Cons ch rest)
  have ih: "distinct (map fst (filter (\<lambda>ch. snd ch \<noteq> []) (map (\<lambda>ch. (fst ch, removeAll p (snd ch))) rest)))
      \<and> distinct (concat (map snd (filter (\<lambda>ch. snd ch \<noteq> []) (map (\<lambda>ch. (fst ch, removeAll p (snd ch))) rest))))"
    using Cons by simp
  have k: "fst ch \<notin> set (map fst (filter (\<lambda>ch. snd ch \<noteq> []) (map (\<lambda>ch. (fst ch, removeAll p (snd ch))) rest)))"
    using leave_keys[of p rest] Cons.prems by auto
  have m: "set (removeAll p (snd ch)) \<inter> set (concat (map snd (filter (\<lambda>ch. snd ch \<noteq> []) (map (\<lambda>ch. (fst ch, removeAll p (snd ch))) rest)))) = {}"
    using leave_members[of p rest] Cons.prems by auto
  have dr: "distinct (removeAll p (snd ch))"
    using Cons.prems by (simp add: distinct_removeAll)
  show ?case
    using ih k m dr by simp
qed

lemma reachable_wf: "reachable reg \<Longrightarrow> registry_wf reg"
proof (induction rule: reachable.induct)
  case start
  show ?case by (simp add: registry_wf_def)
next
  case (joined reg p c reg')
  then show ?case using join_wf by blast
next
  case (left reg p)
  then show ?case using leave_wf by blast
qed

lemma channelOf_member:
  assumes "registry_wf reg" and "channelOf reg s = Some a"
  shows "s \<in> set (peersOf reg a)"
proof -
  from assms(2) obtain ch where f: "find (\<lambda>ch. s \<in> set (snd ch)) reg = Some ch" and a: "fst ch = a"
    by (auto simp: channelOf_def)
  then have "ch \<in> set reg" and "s \<in> set (snd ch)"
    by (auto simp: find_Some_iff)
  then have "map_of reg a = Some (snd ch)"
    using assms(1) a unfolding registry_wf_def by (cases ch) auto
  with \<open>s \<in> set (snd ch)\<close> show ?thesis
    by (simp add: peersOf_def)
qed

lemma channels_disjoint:
  assumes "distinct (concat (map snd reg))"
    and "(a, psa) \<in> set reg" and "(b, psb) \<in> set reg" and "a \<noteq> b"
  shows "set psa \<inter> set psb = {}"
  using assms by (induction reg) force+

lemma peersOf_disjoint:
  assumes "registry_wf reg" and "a \<noteq> b"
  shows "set (peersOf reg a) \<inter> set (peersOf reg b) = {}"
proof (cases "map_of reg a")
  case None
  then show ?thesis by (simp add: peersOf_def)
next
  case sa: (Some psa)
  show ?thesis
  proof (cases "map_of reg b")
    case None
    then show ?thesis by (simp add: peersOf_def)
  next
    case sb: (Some psb)
    have "(a, psa) \<in> set reg" "(b, psb) \<in> set reg"
      using sa sb by (auto dest: map_of_SomeD)
    then show ?thesis
      using channels_disjoint[of reg a psa b psb] assms
      unfolding registry_wf_def by (simp add: peersOf_def sa sb)
  qed
qed

text \<open>
  C6. In every registry that joins and leaves can produce, a frame broadcast by a member
  of channel \<open>a\<close> is delivered exactly to the other peers of \<open>a\<close>, unchanged; a peer of
  another channel \<open>b\<close> is not among the receivers.
\<close>

theorem channel_isolation:
  assumes "reachable reg" and "channelOf reg s = Some a"
    and "q \<in> set (peersOf reg b)" and "a \<noteq> b"
  shows "q \<notin> fst ` set (broadcast reg s f)
       \<and> fst ` set (broadcast reg s f) = set (peersOf reg a) - {s}
       \<and> snd ` set (broadcast reg s f) \<subseteq> {f}
       \<and> s \<in> set (peersOf reg a)"
proof -
  have wf: "registry_wf reg"
    using assms(1) by (rule reachable_wf)
  have rec: "fst ` set (broadcast reg s f) = set (peersOf reg a) - {s}"
    using assms(2) by (auto simp: broadcast_def image_iff)
  have "q \<notin> set (peersOf reg a)"
    using peersOf_disjoint[OF wf assms(4)] assms(3) by blast
  then have "q \<notin> fst ` set (broadcast reg s f)"
    unfolding rec by simp
  moreover have "snd ` set (broadcast reg s f) \<subseteq> {f}"
    using assms(2) by (auto simp: broadcast_def)
  moreover have "s \<in> set (peersOf reg a)"
    using channelOf_member[OF wf assms(2)] .
  ultimately show ?thesis
    using rec by blast
qed

lemma sample_registry_reachable: "reachable sample_registry"
proof -
  have 1: "reachable [(''A'', [1])]"
    by (rule reachable.joined[OF reachable.start, of 1 "''A''"]) (simp add: join_def channelOf_def)
  have 2: "reachable [(''A'', [1, 2])]"
    by (rule reachable.joined[OF 1, of 2 "''A''"]) (simp add: join_def channelOf_def)
  have 3: "reachable [(''A'', [1, 2]), (''B'', [3])]"
    by (rule reachable.joined[OF 2, of 3 "''B''"]) (simp add: join_def channelOf_def)
  have 4: "reachable [(''A'', [1, 2]), (''B'', [3, 4])]"
    by (rule reachable.joined[OF 3, of 4 "''B''"]) (simp add: join_def channelOf_def)
  then show ?thesis by (simp add: sample_registry_def)
qed

theorem channel_isolation_witness:
  "3 \<notin> fst ` set (broadcast sample_registry 1 ''command'')
       \<and> fst ` set (broadcast sample_registry 1 ''command'') = set (peersOf sample_registry ''A'') - {1}
       \<and> snd ` set (broadcast sample_registry 1 ''command'') \<subseteq> {''command''}
       \<and> 1 \<in> set (peersOf sample_registry ''A'')"
  by (rule channel_isolation[where b = "''B''"])
     (simp_all add: sample_registry_reachable, simp_all add: sample_registry_def channelOf_def peersOf_def)

end
